theory Spec2Isabelle
  imports Complex_Main "HOL-Library.Multiset"
begin

section \<open>The alchemist's bomb report (alchemist.py)\<close>

text \<open>
  The program reads a catalog of bombs, keeps those the character knows and that match
  the search tokens, picks for each the highest tier unlocked at the character's level,
  and prints them by decreasing estimated damage.

  Conventions of the embedding:
  \<^item> a Python \<open>str\<close> is a \<open>string\<close>, each \<open>char\<close> standing for the code point of the
    same number (0 to 255); \<open>title\<close> changes the case of the ASCII letters only;
  \<^item> a Python \<open>int\<close> is an \<open>int\<close>. The program needs Python 3.11 or later
    (\<open>tomllib\<close>, \<open>typing.Self\<close>), where \<open>int(str)\<close> and \<open>str(int)\<close> raise ValueError
    beyond 4300 digits; the model has this cap at its default value;
  \<^item> a Python \<open>float\<close> is an IEEE 754 binary64 number: a rational that is representable,
    or an infinity. Every operation rounds to nearest, ties to even. The program
    never produces a NaN or a negative zero (its only zero operands come from the
    integer 0 and its only float constant is positive), so neither is represented;
  \<^item> an exception is a value \<open>Inl e\<close> of the sum type \<open>pyerr + 'a\<close>, and \<open>ebind\<close>
    runs the rest of a computation unless an exception was raised;
  \<^item> a \<open>dict\<close> is an association list in insertion order (its keys are distinct);
  \<^item> standard output is the list of the strings passed to \<open>print\<close>.
\<close>

subsection \<open>Exceptions\<close>

datatype pyerr = ValueError | OverflowError | IndexError | KeyError

fun ebind :: "pyerr + 'a \<Rightarrow> ('a \<Rightarrow> pyerr + 'b) \<Rightarrow> pyerr + 'b" where
  "ebind (Inl e) f = Inl e"
| "ebind (Inr x) f = f x"

subsection \<open>Floats\<close>

datatype pyfloat = NInf | Fin rat | PInf

fun bits :: "nat \<Rightarrow> nat" where
  "bits n = (if n = 0 then 0 else Suc (bits (n div 2)))"

declare bits.simps [simp del]

definition pow2 :: "int \<Rightarrow> rat" where
  "pow2 k = (if 0 \<le> k then 2 ^ nat k else 1 / 2 ^ nat (- k))"

text \<open>For \<open>x > 0\<close>, the integer \<open>l\<close> with \<open>2 ^ l \<le> x < 2 ^ (l + 1)\<close>.\<close>

definition floor_log2 :: "rat \<Rightarrow> int" where
  "floor_log2 x =
     (let (a, b) = quotient_of x;
          k = int (bits (nat a)) - int (bits (nat b))
      in if pow2 k \<le> x then k else k - 1)"

definition round_half_even :: "rat \<Rightarrow> int" where
  "round_half_even x =
     (let f = \<lfloor>x\<rfloor>; r = x - of_int f
      in if r < 1 / 2 then f
         else if 1 / 2 < r then f + 1
         else if even f then f else f + 1)"

text \<open>
  The binary64 number nearest to a positive rational: 53 significant bits, the exponent
  of the last bit no less than -1074; \<open>None\<close> when the rounded value is \<open>2 ^ 1024\<close> or
  more (overflow).
\<close>

definition round_pos :: "rat \<Rightarrow> rat option" where
  "round_pos x =
     (let e = max (floor_log2 x - 52) (- 1074);
          y = of_int (round_half_even (x / pow2 e)) * pow2 e
      in if pow2 1024 \<le> y then None else Some y)"

definition round_double :: "rat \<Rightarrow> pyfloat" where
  "round_double x =
     (if x = 0 then Fin 0
      else if 0 < x then (case round_pos x of None \<Rightarrow> PInf | Some y \<Rightarrow> Fin y)
      else (case round_pos (- x) of None \<Rightarrow> NInf | Some y \<Rightarrow> Fin (- y)))"

text \<open>
  The reals that round to an infinity: those of magnitude \<open>2 ^ 1024 - 2 ^ 970\<close> or more,
  half a unit in the last place above the largest float. Used to state when a
  conversion overflows.
\<close>

definition exceeds_float :: "rat \<Rightarrow> bool" where
  "exceeds_float x = (pow2 1024 - pow2 970 \<le> \<bar>x\<bar>)"

text \<open>\<open>float(n)\<close> for an \<open>int\<close>, as the mixed operations \<open>int + float\<close> and \<open>int * float\<close> do it.\<close>

definition int_to_float :: "int \<Rightarrow> pyerr + pyfloat" where
  "int_to_float n =
     (case round_double (of_int n) of Fin y \<Rightarrow> Inr (Fin y) | _ \<Rightarrow> Inl OverflowError)"

text \<open>\<open>a / 2\<close> for an \<open>int\<close> a: true division, correctly rounded.\<close>

definition int_half :: "int \<Rightarrow> pyerr + pyfloat" where
  "int_half a =
     (case round_double (of_int a / 2) of Fin y \<Rightarrow> Inr (Fin y) | _ \<Rightarrow> Inl OverflowError)"

fun float_add :: "pyfloat \<Rightarrow> pyfloat \<Rightarrow> pyfloat" where
  "float_add (Fin a) (Fin b) = round_double (a + b)"
| "float_add (Fin a) y = y"
| "float_add x y = x"

text \<open>\<open>x * c\<close> for a positive finite constant \<open>c\<close>.\<close>

fun float_mul :: "pyfloat \<Rightarrow> rat \<Rightarrow> pyfloat" where
  "float_mul (Fin a) c = round_double (a * c)"
| "float_mul x c = x"

text \<open>The literal \<open>3.24\<close>.\<close>

definition c324 :: rat where
  "c324 = 1823957849085051 / 562949953421312"

text \<open>A Python number: what \<open>total\<close> and \<open>persist\<close> hold in \<open>avg_dmg\<close>.\<close>

datatype pynum = PyInt int | PyFloat pyfloat

fun num_add_float :: "pynum \<Rightarrow> pyfloat \<Rightarrow> pyerr + pyfloat" where
  "num_add_float (PyInt n) y = ebind (int_to_float n) (\<lambda>x. Inr (float_add x y))"
| "num_add_float (PyFloat x) y = Inr (float_add x y)"

fun num_mul_const :: "pynum \<Rightarrow> rat \<Rightarrow> pyerr + pyfloat" where
  "num_mul_const (PyInt n) c = ebind (int_to_float n) (\<lambda>x. Inr (float_mul x c))"
| "num_mul_const (PyFloat x) c = Inr (float_mul x c)"

subsection \<open>Strings\<close>

definition newline :: char where
  "newline = char_of (10 :: nat)"

definition is_digit :: "char \<Rightarrow> bool" where
  "is_digit c = (48 \<le> (of_char c :: nat) \<and> (of_char c :: nat) \<le> 57)"

definition digit_val :: "char \<Rightarrow> int" where
  "digit_val c = int (of_char c) - 48"

definition digit_char :: "nat \<Rightarrow> char" where
  "digit_char d = char_of (48 + d)"

text \<open>The white space that \<open>int(str)\<close> strips: tab to carriage return, space, NEL, NBSP.\<close>

definition is_space :: "char \<Rightarrow> bool" where
  "is_space c = ((of_char c :: nat) \<in> {9, 10, 11, 12, 13, 32, 133, 160})"

definition strip :: "string \<Rightarrow> string" where
  "strip s = rev (dropWhile is_space (rev (dropWhile is_space s)))"

text \<open>\<open>s.split(c)\<close> for a separator of one character.\<close>

fun split_on :: "char \<Rightarrow> string \<Rightarrow> string list" where
  "split_on c [] = [[]]"
| "split_on c (x # xs) =
     (if x = c then [] # split_on c xs
      else (case split_on c xs of p # ps \<Rightarrow> (x # p) # ps | [] \<Rightarrow> [[x]]))"

text \<open>
  \<open>int(s)\<close>: white space around, an optional sign, then decimal digits, where one
  underscore may stand between two digits; at most \<open>max_str_digits\<close> digits, the sign
  and the underscores not counted.
\<close>

definition max_str_digits :: nat where
  "max_str_digits = 4300"

fun parse_digits :: "int \<Rightarrow> string \<Rightarrow> int option" where
  "parse_digits acc [] = Some acc"
| "parse_digits acc [c] = (if is_digit c then Some (10 * acc + digit_val c) else None)"
| "parse_digits acc (c # d # ds) =
     (if is_digit c then parse_digits (10 * acc + digit_val c) (d # ds)
      else if c = CHR ''_'' \<and> is_digit d then parse_digits (10 * acc + digit_val d) ds
      else None)"

definition parse_unsigned :: "string \<Rightarrow> int option" where
  "parse_unsigned s =
     (case s of [] \<Rightarrow> None
      | c # cs \<Rightarrow> if is_digit c then parse_digits (digit_val c) cs else None)"

definition py_int :: "string \<Rightarrow> pyerr + int" where
  "py_int s =
     (let t = strip s;
          r = (case t of [] \<Rightarrow> None
               | c # cs \<Rightarrow>
                   if c = CHR ''-'' then map_option uminus (parse_unsigned cs)
                   else if c = CHR ''+'' then parse_unsigned cs
                   else parse_unsigned t)
      in case r of
           None \<Rightarrow> Inl ValueError
         | Some n \<Rightarrow>
             if max_str_digits < length (filter is_digit t) then Inl ValueError else Inr n)"

text \<open>
  The decimal notation of an integer, and \<open>str(n)\<close>, which is also what an f-string
  writes for an \<open>int\<close>: the decimal notation, refused beyond \<open>max_str_digits\<close> digits.
\<close>

fun digits_of :: "nat \<Rightarrow> string" where
  "digits_of n =
     (if n < 10 then [digit_char n] else digits_of (n div 10) @ [digit_char (n mod 10)])"

declare digits_of.simps [simp del]

definition decimal :: "int \<Rightarrow> string" where
  "decimal n = (if n < 0 then CHR ''-'' # digits_of (nat (- n)) else digits_of (nat n))"

definition str_int :: "int \<Rightarrow> pyerr + string" where
  "str_int n =
     (if max_str_digits < length (digits_of (nat \<bar>n\<bar>)) then Inl ValueError
      else Inr (decimal n))"

text \<open>
  The characters of the decimal notation other than the sign: digits, hence neither
  white space, nor a sign, nor the letter d. Used to show that \<open>int\<close> reads the decimal
  notation back.
\<close>

definition plain_digit :: "char \<Rightarrow> bool" where
  "plain_digit c = (is_digit c \<and> \<not> is_space c \<and> c \<noteq> CHR ''d'' \<and> c \<noteq> CHR ''-''
     \<and> c \<noteq> CHR ''+'')"

text \<open>\<open>sep.join(xs)\<close>.\<close>

fun join :: "string \<Rightarrow> string list \<Rightarrow> string" where
  "join sep [] = []"
| "join sep [x] = x"
| "join sep (x # y # ys) = x @ sep @ join sep (y # ys)"

text \<open>\<open>xs in ys\<close> for two strings: \<open>xs\<close> occurs in \<open>ys\<close> as a run of consecutive characters.\<close>

fun starts_with :: "string \<Rightarrow> string \<Rightarrow> bool" where
  "starts_with [] ys = True"
| "starts_with (x # xs) [] = False"
| "starts_with (x # xs) (y # ys) = (x = y \<and> starts_with xs ys)"

fun str_in :: "string \<Rightarrow> string \<Rightarrow> bool" where
  "str_in xs [] = (xs = [])"
| "str_in xs (y # ys) = (starts_with xs (y # ys) \<or> str_in xs ys)"

text \<open>
  \<open>s.title()\<close>: a letter that follows a letter is put in lower case, any other letter in
  upper case.
\<close>

definition is_upper :: "char \<Rightarrow> bool" where
  "is_upper c = (65 \<le> (of_char c :: nat) \<and> (of_char c :: nat) \<le> 90)"

definition is_lower :: "char \<Rightarrow> bool" where
  "is_lower c = (97 \<le> (of_char c :: nat) \<and> (of_char c :: nat) \<le> 122)"

definition to_upper :: "char \<Rightarrow> char" where
  "to_upper c = (if is_lower c then char_of ((of_char c :: nat) - 32) else c)"

definition to_lower :: "char \<Rightarrow> char" where
  "to_lower c = (if is_upper c then char_of ((of_char c :: nat) + 32) else c)"

fun title_from :: "bool \<Rightarrow> string \<Rightarrow> string" where
  "title_from previous_is_cased [] = []"
| "title_from previous_is_cased (c # cs) =
     (if previous_is_cased then to_lower c else to_upper c)
       # title_from (is_upper c \<or> is_lower c) cs"

definition title :: "string \<Rightarrow> string" where
  "title s = title_from False s"

subsection \<open>\<open>repr\<close> of a float\<close>

text \<open>
  The shortest decimal digit string that reads back as the same float and, among
  those, the one nearest to it; printed with a decimal point when the position of the
  point is within -3 .. 16 and with an exponent otherwise.
\<close>

definition pow10 :: "int \<Rightarrow> rat" where
  "pow10 k = (if 0 \<le> k then 10 ^ nat k else 1 / 10 ^ nat (- k))"

fun frac_exp10 :: "nat \<Rightarrow> rat \<Rightarrow> int" where
  "frac_exp10 0 x = 0"
| "frac_exp10 (Suc n) x = (if 1 \<le> x then 0 else frac_exp10 n (x * 10) - 1)"

text \<open>For \<open>x > 0\<close>, the integer \<open>e\<close> with \<open>10 ^ e \<le> x < 10 ^ (e + 1)\<close>.\<close>

definition dec_exp :: "rat \<Rightarrow> int" where
  "dec_exp x =
     (if 1 \<le> x then int (length (digits_of (nat \<lfloor>x\<rfloor>))) - 1 else frac_exp10 400 x)"

text \<open>
  The number of \<open>k\<close> significant digits that reads back as \<open>x\<close>, as an integer in units
  of the last digit: one of the two neighbours of \<open>x\<close>, the nearer when both do.
\<close>

definition candidate :: "rat \<Rightarrow> nat \<Rightarrow> int option" where
  "candidate x k =
     (let u = pow10 (dec_exp x - int k + 1);
          lo = \<lfloor>x / u\<rfloor>;
          hi = lo + 1;
          ok_lo = (round_double (of_int lo * u) = Fin x);
          ok_hi = (round_double (of_int hi * u) = Fin x)
      in if ok_lo \<and> ok_hi then
           (if x / u - of_int lo < of_int hi - x / u then Some lo
            else if of_int hi - x / u < x / u - of_int lo then Some hi
            else if even lo then Some lo else Some hi)
         else if ok_lo then Some lo
         else if ok_hi then Some hi
         else None)"

fun shortest :: "rat \<Rightarrow> nat \<Rightarrow> nat \<Rightarrow> int \<times> nat" where
  "shortest x k 0 = (round_half_even (x / pow10 (dec_exp x - int k + 1)), k)"
| "shortest x k (Suc n) =
     (case candidate x k of Some m \<Rightarrow> (m, k) | None \<Rightarrow> shortest x (Suc k) n)"

definition strip_zeros :: "string \<Rightarrow> string" where
  "strip_zeros s = rev (dropWhile (\<lambda>c. c = CHR ''0'') (rev s))"

definition exp_digits :: "int \<Rightarrow> string" where
  "exp_digits e =
     (if e < 0 then ''-'' else ''+'')
       @ (if \<bar>e\<bar> < 10 then ''0'' else []) @ digits_of (nat \<bar>e\<bar>)"

definition repr_pos :: "rat \<Rightarrow> string" where
  "repr_pos x =
     (let (m, k) = shortest x 1 16;
          all_digits = digits_of (nat m);
          decpt = dec_exp x + 1 + (int (length all_digits) - int k);
          ds = strip_zeros all_digits
      in if - 4 < decpt \<and> decpt \<le> 16 then
           (if decpt \<le> 0 then ''0.'' @ replicate (nat (- decpt)) (CHR ''0'') @ ds
            else if int (length ds) \<le> decpt then
              ds @ replicate (nat decpt - length ds) (CHR ''0'') @ ''.0''
            else take (nat decpt) ds @ ''.'' @ drop (nat decpt) ds)
         else
           take 1 ds @ (if 1 < length ds then ''.'' @ drop 1 ds else [])
             @ ''e'' @ exp_digits (decpt - 1))"

fun float_repr :: "pyfloat \<Rightarrow> string" where
  "float_repr NInf = ''-inf''"
| "float_repr PInf = ''inf''"
| "float_repr (Fin x) =
     (if x = 0 then ''0.0'' else if x < 0 then ''-'' @ repr_pos (- x) else repr_pos x)"

subsection \<open>The order of floats\<close>

text \<open>\<open>sorted\<close> compares its keys with \<open><\<close>; on floats without NaN that is a linear order.\<close>

instantiation pyfloat :: linorder
begin

fun less_eq_pyfloat :: "pyfloat \<Rightarrow> pyfloat \<Rightarrow> bool" where
  "less_eq_pyfloat NInf y = True"
| "less_eq_pyfloat (Fin a) NInf = False"
| "less_eq_pyfloat (Fin a) (Fin b) = (a \<le> b)"
| "less_eq_pyfloat (Fin a) PInf = True"
| "less_eq_pyfloat PInf y = (y = PInf)"

definition less_pyfloat :: "pyfloat \<Rightarrow> pyfloat \<Rightarrow> bool" where
  "less_pyfloat x y = (x \<le> y \<and> \<not> y \<le> x)"

instance
proof
  fix x y z :: pyfloat
  show "(x < y) = (x \<le> y \<and> \<not> y \<le> x)"
    by (simp add: less_pyfloat_def)
  show "x \<le> x"
    by (cases x) auto
  show "x \<le> y \<Longrightarrow> y \<le> z \<Longrightarrow> x \<le> z"
    by (cases x; cases y; cases z) auto
  show "x \<le> y \<Longrightarrow> y \<le> x \<Longrightarrow> x = y"
    by (cases x; cases y) auto
  show "x \<le> y \<or> y \<le> x"
    by (cases x; cases y) auto
qed

end

subsection \<open>Entity model\<close>

record Save =
  save_type :: string
  basic :: bool
  success :: string
  failure :: string
  critical :: string

text \<open>A field of type \<open>int | str\<close>.\<close>

datatype int_or_str = IntV int | StrV string

record Variant =
  level :: string
  bonus :: int
  damage :: int_or_str
  splash :: int
  persistent :: int_or_str

record Bomb =
  bomb_type :: string
  levels :: "(int \<times> Variant) list"
  on_hit :: string
  on_crit :: string
  additional :: string
  save :: "Save option"

text \<open>\<open>Save.__str__\<close>.\<close>

definition save_str :: "Save \<Rightarrow> string" where
  "save_str s =
     ''Creatures within the area of effect must make a ''
       @ (if basic s then ''basic '' else []) @ save_type s @ '' save.'' @ [newline]
       @ (if success s \<noteq> [] then
            ''  Success: The target is '' @ success s @ ''.'' @ [newline] else [])
       @ (if failure s \<noteq> [] then
            ''  Failure: The target is '' @ failure s @ ''.'' @ [newline] else [])
       @ (if critical s \<noteq> [] then
            ''  Critical Failure: The target is '' @ critical s @ ''.'' @ [newline] else [])"

text \<open>Truth value and \<open>str\<close> of an \<open>int | str\<close> field.\<close>

fun truthy :: "int_or_str \<Rightarrow> bool" where
  "truthy (IntV n) = (n \<noteq> 0)"
| "truthy (StrV s) = (s \<noteq> [])"

fun field_str :: "int_or_str \<Rightarrow> pyerr + string" where
  "field_str (IntV n) = str_int n"
| "field_str (StrV s) = Inr s"

subsection \<open>Damage Estimator: \<open>Variant.avg_dmg\<close>\<close>

text \<open>
  \<open>count, damage = s.split("d")\<close> followed by \<open>int(count) * int(damage) / 2\<close>: the
  unpacking raises ValueError unless there are exactly two parts, \<open>int\<close> raises ValueError
  on a part that is no integer, and the division raises OverflowError.
\<close>

definition dice_avg :: "string \<Rightarrow> pyerr + pyfloat" where
  "dice_avg s =
     (case split_on (CHR ''d'') s of
        [cnt, dmg] \<Rightarrow>
          ebind (py_int cnt) (\<lambda>c. ebind (py_int dmg) (\<lambda>d. int_half (c * d)))
      | _ \<Rightarrow> Inl ValueError)"

text \<open>Lines 49-54: \<open>total\<close> after the damage has been added to the splash.\<close>

definition damage_total :: "Variant \<Rightarrow> pyerr + pynum" where
  "damage_total v =
     (let total = PyInt (splash v)
      in case damage v of
           IntV n \<Rightarrow> Inr (PyInt (splash v + n))
         | StrV s \<Rightarrow>
             ebind (dice_avg s) (\<lambda>x. ebind (num_add_float total x) (\<lambda>t. Inr (PyFloat t))))"

text \<open>Lines 56-60: \<open>persist\<close>.\<close>

definition persist_of :: "Variant \<Rightarrow> pyerr + pynum" where
  "persist_of v =
     (case persistent v of
        IntV p \<Rightarrow> Inr (PyInt (p + splash v))
      | StrV s \<Rightarrow> ebind (dice_avg s) (\<lambda>x. Inr (PyFloat x)))"

text \<open>The value of \<open>total\<close> from line 54 is overwritten at line 63.\<close>

definition avg_dmg :: "Variant \<Rightarrow> pyerr + pyfloat" where
  "avg_dmg v =
     ebind (damage_total v) (\<lambda>total.
     ebind (persist_of v) (\<lambda>persist.
     num_mul_const persist c324))"

text \<open>
  In the words of the specification: a dice string "splits into exactly two integer
  parts around the letter d", the parts being what \<open>int\<close> accepts; a field is malformed
  when it is a string that does not.
\<close>

definition dice_parts :: "string \<Rightarrow> (int \<times> int) option" where
  "dice_parts s =
     (case split_on (CHR ''d'') s of
        [cnt, dmg] \<Rightarrow>
          (case py_int cnt of
             Inl e \<Rightarrow> None
           | Inr c \<Rightarrow> (case py_int dmg of Inl e \<Rightarrow> None | Inr d \<Rightarrow> Some (c, d)))
      | _ \<Rightarrow> None)"

fun malformed :: "int_or_str \<Rightarrow> bool" where
  "malformed (IntV n) = False"
| "malformed (StrV s) = (dice_parts s = None)"

text \<open>
  The integer operands that \<open>avg_dmg\<close> converts to a float, and whether one of them is
  too large: the product of a dice field halved, the splash when it is added to the
  dice average of the damage, and \<open>persistent + splash\<close> for an integer \<open>persistent\<close>.
\<close>

fun dice_overflows :: "int_or_str \<Rightarrow> bool" where
  "dice_overflows (IntV n) = False"
| "dice_overflows (StrV s) =
     (case dice_parts s of None \<Rightarrow> False | Some (c, d) \<Rightarrow> exceeds_float (of_int (c * d) / 2))"

definition overflows :: "Variant \<Rightarrow> bool" where
  "overflows v =
     (dice_overflows (damage v)
      \<or> (case damage v of IntV n \<Rightarrow> False | StrV s \<Rightarrow> exceeds_float (of_int (splash v)))
      \<or> dice_overflows (persistent v)
      \<or> (case persistent v of
            IntV p \<Rightarrow> exceeds_float (of_int (p + splash v)) | StrV s \<Rightarrow> False))"

text \<open>
  The reference formulas of the specification, \<open>(p + s) * 3.24\<close> and
  \<open>c * d / 2 * 3.24\<close>, in float arithmetic: the magnitude is rounded to a float, and
  its product with the literal 3.24 is rounded to a float.
\<close>

definition times_324 :: "rat \<Rightarrow> pyfloat" where
  "times_324 x =
     (case round_double x of
        Fin y \<Rightarrow> round_double (y * c324)
      | NInf \<Rightarrow> NInf
      | PInf \<Rightarrow> PInf)"

definition reference_flat :: "int \<Rightarrow> int \<Rightarrow> pyfloat" where
  "reference_flat p s = times_324 (of_int (p + s))"

definition reference_dice :: "int \<Rightarrow> int \<Rightarrow> pyfloat" where
  "reference_dice c d = times_324 (of_int (c * d) / 2)"

subsection \<open>Description Renderer: \<open>Bomb.variant_str\<close> and \<open>parse_bomb\<close>\<close>

definition lookup_level :: "Bomb \<Rightarrow> int \<Rightarrow> pyerr + Variant" where
  "lookup_level b lvl =
     (case map_of (levels b) lvl of None \<Rightarrow> Inl KeyError | Some v \<Rightarrow> Inr v)"

text \<open>
  The sentences are built in the order of the source; each \<open>{...}\<close> of an f-string that
  holds an \<open>int\<close> may raise ValueError (see \<open>str_int\<close>).
\<close>

definition damages_of :: "Bomb \<Rightarrow> Variant \<Rightarrow> pyerr + string list" where
  "damages_of b variant =
     (let damage_type = bomb_type b
      in ebind (if truthy (damage variant) then
                  ebind (field_str (damage variant)) (\<lambda>d.
                    Inr [d @ '' '' @ damage_type @ '' damage''])
                else Inr []) (\<lambda>d1.
         ebind (if truthy (persistent variant) then
                  ebind (field_str (persistent variant)) (\<lambda>p.
                    Inr [p @ '' persistent '' @ damage_type @ '' damage''])
                else Inr []) (\<lambda>d2.
         ebind (if splash variant \<noteq> 0 then
                  ebind (str_int (splash variant)) (\<lambda>sp.
                    Inr [sp @ '' '' @ damage_type @ '' splash damage''])
                else Inr []) (\<lambda>d3.
         ebind (if additional b \<noteq> [] then
                  ebind (field_str (damage variant)) (\<lambda>d.
                    Inr [d @ '' additional '' @ additional b @ '' damage''])
                else Inr []) (\<lambda>d4.
         Inr (d1 @ d2 @ d3 @ d4))))))"

definition description_of :: "Bomb \<Rightarrow> Variant \<Rightarrow> pyerr + string list" where
  "description_of b variant =
     ebind (if bonus variant \<noteq> 0 then
              ebind (str_int (bonus variant)) (\<lambda>bo.
                Inr [''You gain a +'' @ bo @ '' bonus to attack rolls''])
            else Inr []) (\<lambda>s1.
     ebind (damages_of b variant) (\<lambda>damages.
       Inr (s1
         @ (if damages \<noteq> [] then [''The bomb deals '' @ join '', '' damages] else [])
         @ (if on_hit b \<noteq> [] then
              [''On a hit, the target is '' @ on_hit b
                 @ '' until the start of your next turn'']
            else [])
         @ (if on_crit b \<noteq> [] then
              [''On a critical hit, the target is '' @ on_crit b
                 @ '' until the start of your next turn'']
            else []))))"

definition variant_str :: "Bomb \<Rightarrow> int \<Rightarrow> pyerr + string" where
  "variant_str b lvl =
     ebind (lookup_level b lvl) (\<lambda>variant.
     ebind (description_of b variant) (\<lambda>description.
       Inr ((case save b of None \<Rightarrow> [] | Some s \<Rightarrow> save_str s)
            @ join ''. '' description @ ''.'')))"

text \<open>
  \<open>parse_bomb\<close>: the f-string of line 178 formats \<open>level\<close> before it evaluates
  \<open>variant.avg_dmg\<close>; the body is rendered on line 179.
\<close>

definition parse_bomb :: "string \<Rightarrow> Bomb \<Rightarrow> int \<Rightarrow> pyerr + string" where
  "parse_bomb name b lvl =
     ebind (lookup_level b lvl) (\<lambda>variant.
     ebind (str_int lvl) (\<lambda>lvl_str.
     ebind (avg_dmg variant) (\<lambda>score.
     ebind (variant_str b lvl) (\<lambda>body.
       Inr (title name @ '' ('' @ title (level variant) @ '') ['' @ lvl_str
            @ ''] ('' @ float_repr score @ '' dmg)'' @ [newline] @ body @ [newline])))))"

subsection \<open>Search Matcher: \<open>Bomb.match\<close>\<close>

text \<open>
  The \<open>any\<close> of the five tests. The save is tested through \<open>all((self.save, item in
  str(self.save)))\<close>, which is false when there is no save.
\<close>

definition check_item :: "Bomb \<Rightarrow> string \<Rightarrow> bool" where
  "check_item b item =
     (str_in item (bomb_type b) \<or> str_in item (on_hit b) \<or> str_in item (on_crit b)
      \<or> str_in item (additional b)
      \<or> (case save b of None \<Rightarrow> False | Some s \<Rightarrow> str_in item (save_str s)))"

text \<open>The loop, with the variable \<open>match\<close> as \<open>m\<close>; \<open>item[0]\<close> raises IndexError on \<open>""\<close>.\<close>

fun match_loop :: "Bomb \<Rightarrow> bool \<Rightarrow> string list \<Rightarrow> pyerr + bool" where
  "match_loop b m [] = Inr m"
| "match_loop b m (item # rest) =
     (case item of
        [] \<Rightarrow> Inl IndexError
      | c # cs \<Rightarrow>
          (let negate = (c = CHR ''-'');
               item' = (if negate then cs else item);
               check = check_item b item';
               m' = (if negate then m \<and> \<not> check else m \<and> check)
           in if \<not> m' then Inr False else match_loop b m' rest))"

definition match :: "Bomb \<Rightarrow> string list \<Rightarrow> pyerr + bool" where
  "match b search = match_loop b True search"

text \<open>
  What one token asks of a bomb, in the words of the specification: a leading \<open>-\<close> is
  stripped and negates the test. Used to state properties of the loop.
\<close>

definition token_passes :: "Bomb \<Rightarrow> string \<Rightarrow> bool" where
  "token_passes b item =
     (case item of [] \<Rightarrow> False
      | c # cs \<Rightarrow> if c = CHR ''-'' then \<not> check_item b cs else check_item b item)"

subsection \<open>Level Selector and Ranker: \<open>main\<close>\<close>

text \<open>Lines 200-204: the loop over the tiers, with the variable \<open>version\<close>.\<close>

fun select_version :: "int \<Rightarrow> int \<Rightarrow> (int \<times> Variant) list \<Rightarrow> int" where
  "select_version cfg_level version [] = version"
| "select_version cfg_level version ((lvl, v) # rest) =
     (if cfg_level < lvl then version else select_version cfg_level lvl rest)"

type_synonym entry = "string \<times> Bomb \<times> int"

text \<open>
  Lines 193-206: the scan of the catalog. The state is what has been printed and the
  list \<open>variants\<close>; an exception leaves the state as it was when it was raised.
\<close>

fun scan :: "int \<Rightarrow> string list \<Rightarrow> string list \<Rightarrow> (string \<times> Bomb) list
    \<Rightarrow> string list \<times> entry list \<Rightarrow> (string list \<times> entry list) \<times> pyerr option" where
  "scan cfg_level formulae search [] st = (st, None)"
| "scan cfg_level formulae search ((name, b) # rest) (out, variants) =
     (case (if search \<noteq> [] then match b search else Inr True) of
        Inl e \<Rightarrow> ((out, variants), Some e)
      | Inr matched \<Rightarrow>
          if \<not> matched then scan cfg_level formulae search rest (out, variants)
          else if name \<notin> set formulae then
            scan cfg_level formulae search rest (out @ [name], variants)
          else
            (let version = select_version cfg_level 0 (levels b)
             in if version \<noteq> 0 then
                  scan cfg_level formulae search rest (out, variants @ [(name, b, version)])
                else scan cfg_level formulae search rest (out, variants)))"

text \<open>The key of line 208: \<open>x[1].levels[x[2]].avg_dmg\<close>.\<close>

fun sort_key_of :: "entry \<Rightarrow> pyerr + pyfloat" where
  "sort_key_of (name, b, lvl) = ebind (lookup_level b lvl) avg_dmg"

text \<open>\<open>sorted\<close> computes the key of every element first, in order.\<close>

fun keyed :: "entry list \<Rightarrow> pyerr + (pyfloat \<times> entry) list" where
  "keyed [] = Inr []"
| "keyed (x # xs) =
     ebind (sort_key_of x) (\<lambda>k. ebind (keyed xs) (\<lambda>ks. Inr ((k, x) # ks)))"

text \<open>
  \<open>sorted(..., reverse=True)\<close>: the list is reversed, sorted by a stable ascending
  sort, and reversed again.
\<close>

definition sorted_reverse :: "('k::linorder \<times> 'a) list \<Rightarrow> 'a list" where
  "sorted_reverse kxs = map snd (rev (sort_key fst (rev kxs)))"

text \<open>Lines 208-209: the loop that prints the blocks.\<close>

fun print_blocks :: "entry list \<Rightarrow> string list \<Rightarrow> string list \<times> pyerr option" where
  "print_blocks [] out = (out, None)"
| "print_blocks ((name, b, lvl) # rest) out =
     (case parse_bomb name b lvl of
        Inl e \<Rightarrow> (out, Some e)
      | Inr block \<Rightarrow> print_blocks rest (out @ [block]))"

text \<open>The block of an entry, or the exception that rendering it raises.\<close>

fun render_entry :: "entry \<Rightarrow> pyerr + string" where
  "render_entry (name, b, lvl) = parse_bomb name b lvl"

text \<open>
  \<open>main\<close>, from the configured level, the known formulae, the catalog and the search
  tokens to what is printed and the exception that ended the run, if any.
\<close>

definition main :: "int \<Rightarrow> string list \<Rightarrow> (string \<times> Bomb) list \<Rightarrow> string list
    \<Rightarrow> string list \<times> pyerr option" where
  "main cfg_level formulae bombs search =
     (case scan cfg_level formulae search bombs ([], []) of
        ((out, variants), Some e) \<Rightarrow> (out, Some e)
      | ((out, variants), None) \<Rightarrow>
          (case keyed variants of
             Inl e \<Rightarrow> (out, Some e)
           | Inr kxs \<Rightarrow> print_blocks (sorted_reverse kxs) out))"

text \<open>
  What the scan is expected to leave behind, in the words of the specification: a bomb
  passes the filter when there are no search tokens or the matcher returns true; the
  bare names are those of the passing bombs that are not known, in catalog order; the
  selected entries are the passing known bombs with an eligible tier, in catalog order.
\<close>

definition passes :: "string list \<Rightarrow> Bomb \<Rightarrow> bool" where
  "passes search b = (search = [] \<or> match b search = Inr True)"

definition unknown_names :: "string list \<Rightarrow> string list \<Rightarrow> (string \<times> Bomb) list
    \<Rightarrow> string list" where
  "unknown_names formulae search bombs =
     map fst (filter (\<lambda>(name, b). passes search b \<and> name \<notin> set formulae) bombs)"

definition selected :: "int \<Rightarrow> string list \<Rightarrow> string list \<Rightarrow> (string \<times> Bomb) list
    \<Rightarrow> entry list" where
  "selected cfg_level formulae search bombs =
     map (\<lambda>(name, b). (name, b, select_version cfg_level 0 (levels b)))
       (filter (\<lambda>(name, b). passes search b \<and> name \<in> set formulae
                  \<and> select_version cfg_level 0 (levels b) \<noteq> 0) bombs)"

subsection \<open>Example values\<close>

text \<open>A bomb with tiers at the levels 1, 3 and 6.\<close>

definition tiers_136 :: "(int \<times> Variant) list" where
  "tiers_136 = map (\<lambda>k. (k, \<lparr>level = ''tier'', bonus = 0, damage = IntV 0, splash = 0,
      persistent = IntV 0\<rparr>)) [1, 3, 6]"

definition bomb_136 :: Bomb where
  "bomb_136 = \<lparr>bomb_type = ''fire'', levels = tiers_136, on_hit = [], on_crit = [],
      additional = [], save = None\<rparr>"

text \<open>The catalog of the end-to-end example: one acid flask with a single tier.\<close>

definition acid_variant :: Variant where
  "acid_variant = \<lparr>level = ''lesser'', bonus = 0, damage = StrV ''1d6'', splash = 0,
      persistent = StrV ''1d6''\<rparr>"

definition acid_flask :: Bomb where
  "acid_flask = \<lparr>bomb_type = ''acid'', levels = [(1, acid_variant)], on_hit = [],
      on_crit = [], additional = [], save = None\<rparr>"

text \<open>The block that the end-to-end example prints.\<close>

definition acid_block :: string where
  "acid_block = ''Acid Flask (Lesser) [1] (9.72 dmg)'' @ [newline]
     @ ''The bomb deals 1d6 acid damage, 1d6 persistent acid damage.'' @ [newline]"

text \<open>A variant with splash only, and one with a persistent amount beyond the floats.\<close>

definition splash_variant :: Variant where
  "splash_variant = \<lparr>level = ''lesser'', bonus = 0, damage = IntV 0, splash = 1,
      persistent = IntV 0\<rparr>"

definition huge_variant :: Variant where
  "huge_variant = \<lparr>level = ''lesser'', bonus = 0, damage = IntV 0, splash = 0,
      persistent = IntV (2 ^ 1024)\<rparr>"

text \<open>A variant whose damage is no dice string.\<close>

definition broken_variant :: Variant where
  "broken_variant = \<lparr>level = ''lesser'', bonus = 0, damage = StrV ''1x6'', splash = 0,
      persistent = IntV 0\<rparr>"

text \<open>
  A bomb with one tier at level 1 and a flat persistent amount; a catalog of three such
  bombs, two of them with the same score; the blocks that are printed for them.
\<close>

definition flat_variant :: "int \<Rightarrow> Variant" where
  "flat_variant p = \<lparr>level = ''lesser'', bonus = 0, damage = IntV 0, splash = 0,
      persistent = IntV p\<rparr>"

definition flat_bomb :: "int \<Rightarrow> Bomb" where
  "flat_bomb p = \<lparr>bomb_type = ''fire'', levels = [(1, flat_variant p)], on_hit = [],
      on_crit = [], additional = [], save = None\<rparr>"

definition tied_bombs :: "(string \<times> Bomb) list" where
  "tied_bombs = [(''first'', flat_bomb 0), (''high'', flat_bomb 3), (''second'', flat_bomb 0)]"

definition high_block :: string where
  "high_block = ''High (Lesser) [1] (9.72 dmg)'' @ [newline]
     @ ''The bomb deals 3 persistent fire damage.'' @ [newline]"

definition first_block :: string where
  "first_block = ''First (Lesser) [1] (0.0 dmg)'' @ [newline] @ ''.'' @ [newline]"

definition second_block :: string where
  "second_block = ''Second (Lesser) [1] (0.0 dmg)'' @ [newline] @ ''.'' @ [newline]"

text \<open>A variant whose persistent field is the dice string of a count of 4301 digits.\<close>

definition long_dice_variant :: Variant where
  "long_dice_variant = \<lparr>level = ''lesser'', bonus = 0, damage = IntV 0, splash = 0,
      persistent = StrV (decimal (10 ^ max_str_digits) @ ''d'' @ decimal 0)\<rparr>"

section \<open>Properties\<close>

subsection \<open>Floats: powers of two, rounding, overflow\<close>

lemma pow2_powi: "pow2 k = 2 powi k"
  by (simp add: pow2_def power_int_def inverse_eq_divide power_one_over)

lemma pow2_pos [simp]: "0 < pow2 k"
  by (simp add: pow2_powi)

lemma pow2_neq0 [simp]: "pow2 k \<noteq> 0"
  by (simp add: pow2_powi)

lemma pow2_add: "pow2 (a + b) = pow2 a * pow2 b"
  by (simp add: pow2_powi power_int_add)

lemma pow2_diff: "pow2 (a - b) = pow2 a / pow2 b"
  by (simp add: pow2_powi power_int_diff)

lemma pow2_strict_mono: "a < b \<Longrightarrow> pow2 a < pow2 b"
  unfolding pow2_powi by (rule power_int_strict_increasing) simp_all

lemma pow2_mono: "a \<le> b \<Longrightarrow> pow2 a \<le> pow2 b"
  unfolding pow2_powi by (rule power_int_increasing) simp_all

lemma pow2_less_iff [simp]: "pow2 a < pow2 b \<longleftrightarrow> a < b"
proof
  assume l: "pow2 a < pow2 b"
  show "a < b"
  proof (rule ccontr)
    assume "\<not> a < b"
    then have "pow2 b \<le> pow2 a" by (intro pow2_mono) simp
    with l show False by simp
  qed
qed (rule pow2_strict_mono)

lemma pow2_le_iff [simp]: "pow2 a \<le> pow2 b \<longleftrightarrow> a \<le> b"
proof
  assume l: "pow2 a \<le> pow2 b"
  show "a \<le> b"
  proof (rule ccontr)
    assume "\<not> a \<le> b"
    then have "pow2 b < pow2 a" by (intro pow2_strict_mono) simp
    with l show False by simp
  qed
qed (rule pow2_mono)

lemma pow2_nat: "pow2 (int n) = 2 ^ n"
  by (simp add: pow2_def)

lemma bits_pos: "0 < n \<Longrightarrow> 0 < bits n"
  by (subst bits.simps) simp

lemma bits_bounds: "0 < n \<Longrightarrow> 2 ^ (bits n - 1) \<le> n \<and> n < 2 ^ bits n"
proof (induction n rule: bits.induct)
  case (1 n)
  show ?case
  proof (cases "n div 2 = 0")
    case True
    with "1.prems" have n1: "n = Suc 0" by (simp add: div_eq_0_iff)
    have "bits (Suc 0) = Suc 0"
      by (simp add: bits.simps[of "Suc 0"] bits.simps[of 0])
    then show ?thesis unfolding n1 by simp
  next
    case False
    then have pos: "0 < n div 2" by simp
    have ih: "2 ^ (bits (n div 2) - 1) \<le> n div 2 \<and> n div 2 < 2 ^ bits (n div 2)"
      using "1.IH" "1.prems" pos by simp
    have b: "bits n = Suc (bits (n div 2))"
      using "1.prems" by (subst bits.simps) simp
    have bp: "0 < bits (n div 2)" using pos by (rule bits_pos)
    then obtain j where j: "bits (n div 2) = Suc j" by (cases "bits (n div 2)") auto
    from ih j have "2 ^ j \<le> n div 2" "n div 2 < 2 ^ Suc j" by simp_all
    then have "2 * 2 ^ j \<le> n" "n < 2 * 2 ^ Suc j" by linarith+
    then show ?thesis by (simp add: b j)
  qed
qed

lemma floor_log2_bounds:
  assumes "0 < x"
  shows "pow2 (floor_log2 x) \<le> x \<and> x < pow2 (floor_log2 x + 1)"
proof -
  obtain a b where q: "quotient_of x = (a, b)" by (cases "quotient_of x")
  have bpos: "0 < b" using q by (rule quotient_of_denom_pos)
  have xdiv: "x = of_int a / of_int b" using q by (rule quotient_of_div)
  have apos: "0 < a"
    using assms bpos xdiv by (simp add: zero_less_divide_iff)
  define la where "la = bits (nat a)"
  define lb where "lb = bits (nat b)"
  define k where "k = int la - int lb"
  have la1: "0 < la" unfolding la_def using apos by (simp add: bits_pos)
  have lb1: "0 < lb" unfolding lb_def using bpos by (simp add: bits_pos)
  have ba: "2 ^ (la - 1) \<le> nat a \<and> nat a < 2 ^ la"
    unfolding la_def using apos by (intro bits_bounds) simp
  have bb: "2 ^ (lb - 1) \<le> nat b \<and> nat b < 2 ^ lb"
    unfolding lb_def using bpos by (intro bits_bounds) simp
  have a_lo: "pow2 (int la - 1) \<le> of_int a"
  proof -
    have "int (2 ^ (la - 1)) \<le> int (nat a)" using ba by (simp only: of_nat_le_iff)
    then have "(2::int) ^ (la - 1) \<le> a" using apos by simp
    then have "(of_int ((2::int) ^ (la - 1)) :: rat) \<le> of_int a" by (simp only: of_int_le_iff)
    then have le: "(2::rat) ^ (la - 1) \<le> of_int a" by simp
    have "int (la - 1) = int la - 1" using la1 by simp
    then have "pow2 (int la - 1) = 2 ^ (la - 1)" by (metis pow2_nat)
    with le show ?thesis by (simp only:)
  qed
  have a_hi: "of_int a < pow2 (int la)"
  proof -
    have "int (nat a) < int (2 ^ la)" using ba by (simp only: of_nat_less_iff)
    then have "a < (2::int) ^ la" using apos by simp
    then have "(of_int a :: rat) < of_int ((2::int) ^ la)" by (simp only: of_int_less_iff)
    then show ?thesis by (simp add: pow2_nat)
  qed
  have b_lo: "pow2 (int lb - 1) \<le> of_int b"
  proof -
    have "int (2 ^ (lb - 1)) \<le> int (nat b)" using bb by (simp only: of_nat_le_iff)
    then have "(2::int) ^ (lb - 1) \<le> b" using bpos by simp
    then have "(of_int ((2::int) ^ (lb - 1)) :: rat) \<le> of_int b" by (simp only: of_int_le_iff)
    then have le: "(2::rat) ^ (lb - 1) \<le> of_int b" by simp
    have "int (lb - 1) = int lb - 1" using lb1 by simp
    then have "pow2 (int lb - 1) = 2 ^ (lb - 1)" by (metis pow2_nat)
    with le show ?thesis by (simp only:)
  qed
  have b_hi: "of_int b < pow2 (int lb)"
  proof -
    have "int (nat b) < int (2 ^ lb)" using bb by (simp only: of_nat_less_iff)
    then have "b < (2::int) ^ lb" using bpos by simp
    then have "(of_int b :: rat) < of_int ((2::int) ^ lb)" by (simp only: of_int_less_iff)
    then show ?thesis by (simp add: pow2_nat)
  qed
  have ratb: "(0::rat) < of_int b" using bpos by simp
  have lower: "pow2 (k - 1) < x"
  proof -
    have "k - 1 = (int la - 1) - int lb" unfolding k_def by simp
    then have "pow2 (k - 1) = pow2 (int la - 1) / pow2 (int lb)"
      by (simp only: pow2_diff)
    also have "\<dots> < pow2 (int la - 1) / of_int b"
      using b_hi ratb by (simp add: divide_strict_left_mono)
    also have "\<dots> \<le> of_int a / of_int b"
      using a_lo ratb by (simp add: divide_right_mono)
    finally show ?thesis by (simp add: xdiv)
  qed
  have upper: "x < pow2 (k + 1)"
  proof -
    have "x = of_int a / of_int b" by (rule xdiv)
    also have "\<dots> < pow2 (int la) / of_int b"
      using a_hi ratb by (simp add: divide_strict_right_mono)
    also have "\<dots> \<le> pow2 (int la) / pow2 (int lb - 1)"
      using b_lo by (intro frac_le) (simp_all add: less_imp_le)
    also have "\<dots> = pow2 (k + 1)"
    proof -
      have "k + 1 = int la - (int lb - 1)" unfolding k_def by simp
      then show ?thesis by (simp only: pow2_diff)
    qed
    finally show ?thesis .
  qed
  have fl: "floor_log2 x = (if pow2 k \<le> x then k else k - 1)"
    unfolding floor_log2_def q k_def la_def lb_def by (simp add: Let_def)
  show ?thesis
    using lower upper unfolding fl by auto
qed

lemma floor_log2_unique:
  assumes "pow2 l \<le> x" "x < pow2 (l + 1)"
  shows "floor_log2 x = l"
proof -
  have xpos: "0 < x" using assms(1) pow2_pos[of l] by linarith
  note b = floor_log2_bounds[OF xpos]
  have "pow2 l < pow2 (floor_log2 x + 1)" using assms(1) b by linarith
  moreover have "pow2 (floor_log2 x) < pow2 (l + 1)" using assms(2) b by linarith
  ultimately show ?thesis by simp
qed


lemma rhe_of_int [simp]: "round_half_even (of_int n) = n"
  by (simp add: round_half_even_def)

lemma rhe_cases:
  "round_half_even z = \<lfloor>z\<rfloor> \<or> round_half_even z = \<lfloor>z\<rfloor> + 1"
  by (simp add: round_half_even_def Let_def)

lemma rhe_upper: "of_int (round_half_even z) \<le> z + 1 / 2"
  unfolding round_half_even_def Let_def
  by (auto simp: not_less) linarith+

lemma rhe_lower: "z - 1 / 2 \<le> of_int (round_half_even z)"
  unfolding round_half_even_def Let_def
  by (auto simp: not_less) linarith+

lemma rhe_mono: "z \<le> w \<Longrightarrow> round_half_even z \<le> round_half_even w"
proof -
  assume zw: "z \<le> w"
  then have fl: "\<lfloor>z\<rfloor> \<le> \<lfloor>w\<rfloor>" by (rule floor_mono)
  show ?thesis
  proof (cases "\<lfloor>z\<rfloor> = \<lfloor>w\<rfloor>")
    case True
    then show ?thesis using zw
      unfolding round_half_even_def Let_def by (auto simp: not_less)
  next
    case False
    with fl have "\<lfloor>z\<rfloor> + 1 \<le> \<lfloor>w\<rfloor>" by simp
    moreover have "round_half_even z \<le> \<lfloor>z\<rfloor> + 1" using rhe_cases[of z] by auto
    moreover have "\<lfloor>w\<rfloor> \<le> round_half_even w" using rhe_cases[of w] by auto
    ultimately show ?thesis by linarith
  qed
qed

lemma rhe_ge_int: "of_int n \<le> z \<Longrightarrow> n \<le> round_half_even z"
  using rhe_mono[of "of_int n" z] by simp

lemma rhe_le_int: "z \<le> of_int n \<Longrightarrow> round_half_even z \<le> n"
  using rhe_mono[of z "of_int n"] by simp

lemma rhe_below_half: "z < of_int n - 1 / 2 \<Longrightarrow> round_half_even z < n"
proof -
  assume a: "z < of_int n - 1 / 2"
  have "z - 1 / 2 \<le> of_int (round_half_even z)" "of_int (round_half_even z) \<le> z + 1 / 2"
    by (rule rhe_lower, rule rhe_upper)
  then have "(of_int (round_half_even z) :: rat) < of_int n" using a by linarith
  then show ?thesis by simp
qed

lemma rhe_above_half_even:
  assumes "even n" "of_int n - 1 / 2 \<le> z"
  shows "n \<le> round_half_even z"
proof (cases "of_int n \<le> z")
  case True
  then show ?thesis by (rule rhe_ge_int)
next
  case False
  then have fl: "\<lfloor>z\<rfloor> = n - 1"
    using assms(2) by (simp add: floor_unique)
  have r: "1 / 2 \<le> z - of_int \<lfloor>z\<rfloor>" using assms(2) fl by simp
  have odd: "odd \<lfloor>z\<rfloor>" using assms(1) fl by simp
  show ?thesis
    unfolding round_half_even_def Let_def using r odd fl by (auto simp: not_less)
qed

lemma round_pos_unfold:
  "round_pos x =
     (if pow2 1024 \<le> of_int (round_half_even (x / pow2 (max (floor_log2 x - 52) (- 1074))))
            * pow2 (max (floor_log2 x - 52) (- 1074))
      then None
      else Some (of_int (round_half_even (x / pow2 (max (floor_log2 x - 52) (- 1074))))
            * pow2 (max (floor_log2 x - 52) (- 1074))))"
  by (simp add: round_pos_def Let_def)

lemma round_pos_exact:
  assumes m: "0 < m" "m < 2 ^ 53" and e: "- 1074 \<le> e"
    and lt: "of_int m * pow2 e < pow2 1024"
  shows "round_pos (of_int m * pow2 e) = Some (of_int m * pow2 e)"
proof -
  define x where "x = of_int m * pow2 e"
  define E where "E = max (floor_log2 x - 52) (- 1074)"
  have xpos: "0 < x" unfolding x_def using m(1) by simp
  note b = floor_log2_bounds[OF xpos]
  have "(of_int m :: rat) < of_int (2 ^ 53)" using m(2) by (simp only: of_int_less_iff)
  then have "(of_int m :: rat) < pow2 53" by (simp add: pow2_def)
  then have "x < pow2 53 * pow2 e" unfolding x_def by simp
  then have "x < pow2 (53 + e)" by (simp only: pow2_add)
  with b have "pow2 (floor_log2 x) < pow2 (53 + e)" by linarith
  then have "floor_log2 x - 52 \<le> e" by simp
  then have Ee: "E \<le> e" unfolding E_def using e by simp
  define d where "d = nat (e - E)"
  have "pow2 e = pow2 (E + int d)" unfolding d_def using Ee by simp
  then have pe: "pow2 e = pow2 E * 2 ^ d" by (simp only: pow2_add pow2_nat)
  have "x / pow2 E = of_int m * 2 ^ d"
    unfolding x_def pe using pow2_pos[of E] by simp
  then have q: "x / pow2 E = of_int (m * 2 ^ d)" by simp
  have y: "of_int (round_half_even (x / pow2 E)) * pow2 E = x"
    unfolding q rhe_of_int unfolding x_def pe by simp
  have "round_pos x = Some x"
    unfolding round_pos_unfold E_def[symmetric] y using lt unfolding x_def by simp
  then show ?thesis unfolding x_def .
qed

lemma round_pos_overflow_iff:
  assumes xpos: "0 < x"
  shows "round_pos x = None \<longleftrightarrow> pow2 1024 - pow2 970 \<le> x"
proof -
  define L where "L = floor_log2 x"
  define E where "E = max (L - 52) (- 1074)"
  define z where "z = x / pow2 E"
  define y where "y = of_int (round_half_even z) * pow2 E"
  have b: "pow2 L \<le> x" "x < pow2 (L + 1)"
    unfolding L_def using floor_log2_bounds[OF xpos] by simp_all
  have rp: "round_pos x = (if pow2 1024 \<le> y then None else Some y)"
    unfolding round_pos_unfold y_def z_def E_def L_def ..
  have none: "round_pos x = None \<longleftrightarrow> pow2 1024 \<le> y"
    unfolding rp by simp
  have xz: "x = z * pow2 E" unfolding z_def using pow2_pos[of E] by simp
  have p53: "pow2 53 = of_int (2 ^ 53)" by (simp add: pow2_def)
  have p52: "pow2 52 = of_int (2 ^ 52)" by (simp add: pow2_def)
  have y_ge: "pow2 k \<le> y \<longleftrightarrow> pow2 (k - E) \<le> of_int (round_half_even z)" for k
  proof -
    have "pow2 k = pow2 (k - E) * pow2 E"
      by (simp add: pow2_add[symmetric])
    then show ?thesis unfolding y_def using pow2_pos[of E] by simp
  qed
  have half: "pow2 970 = pow2 971 / 2"
  proof -
    have "pow2 971 = pow2 (970 + 1)" by simp
    also have "\<dots> = pow2 970 * pow2 1" by (simp only: pow2_add)
    finally show ?thesis by (simp add: pow2_def)
  qed
  have p1024: "pow2 1024 = pow2 53 * pow2 971"
    by (simp add: pow2_add[symmetric])
  have thr: "pow2 1024 - pow2 970 = (of_int (2 ^ 53) - 1 / 2) * pow2 971"
    unfolding p1024 half p53 by (simp add: algebra_simps)
  show ?thesis
  proof (cases "L \<le> 1022")
    case True
    have Ele: "E \<le> 970" unfolding E_def using True by simp
    have "z < pow2 53"
    proof (cases "L - 52 \<le> - 1074")
      case True
      then have E: "E = - 1074" unfolding E_def by simp
      have "x < pow2 (L + 1)" by (rule b)
      also have "\<dots> \<le> pow2 (53 + E)" unfolding E using True by simp
      also have "\<dots> = pow2 53 * pow2 E" by (simp only: pow2_add)
      finally show ?thesis unfolding z_def using pow2_pos[of E]
        by (simp add: pos_divide_less_eq)
    next
      case False
      then have E: "E = L - 52" unfolding E_def by simp
      have "x < pow2 (L + 1)" by (rule b)
      also have "L + 1 = 53 + E" unfolding E by simp
      also have "pow2 (53 + E) = pow2 53 * pow2 E" by (simp only: pow2_add)
      finally show ?thesis unfolding z_def using pow2_pos[of E]
        by (simp add: pos_divide_less_eq)
    qed
    then have "z \<le> of_int (2 ^ 53)" unfolding p53 by simp
    then have "round_half_even z \<le> 2 ^ 53" by (rule rhe_le_int)
    then have "(of_int (round_half_even z) :: rat) \<le> of_int (2 ^ 53)"
      by (simp only: of_int_le_iff)
    then have "y \<le> pow2 53 * pow2 E"
      unfolding y_def p53 using pow2_pos[of E] by (simp add: mult_right_mono)
    also have "\<dots> = pow2 (53 + E)" by (simp only: pow2_add)
    also have "\<dots> < pow2 1024" using Ele by simp
    finally have fin: "\<not> pow2 1024 \<le> y" by simp
    have "x < pow2 1023" 
    proof -
      have "x < pow2 (L + 1)" by (rule b)
      also have "\<dots> \<le> pow2 1023" using True by simp
      finally show ?thesis .
    qed
    moreover have "pow2 1023 \<le> pow2 1024 - pow2 970"
    proof -
      have "pow2 1024 = pow2 (1023 + 1)" by simp
      also have "\<dots> = pow2 1023 * pow2 1" by (simp only: pow2_add)
      finally have "pow2 1024 = 2 * pow2 1023" by (simp add: pow2_def)
      moreover have "pow2 970 \<le> pow2 1023" by simp
      ultimately show ?thesis by linarith
    qed
    ultimately have "\<not> pow2 1024 - pow2 970 \<le> x" by linarith
    with fin show ?thesis unfolding none by simp
  next
    case False
    then have L: "1023 \<le> L" by simp
    show ?thesis
    proof (cases "L = 1023")
      case True
      have E: "E = 971" unfolding E_def True by simp
      have ov: "pow2 1024 \<le> y \<longleftrightarrow> 2 ^ 53 \<le> round_half_even z"
      proof -
        have "pow2 1024 \<le> y \<longleftrightarrow> pow2 53 \<le> of_int (round_half_even z)"
          unfolding y_ge E by simp
        also have "\<dots> \<longleftrightarrow> (of_int (2 ^ 53) :: rat) \<le> of_int (round_half_even z)"
          unfolding p53 ..
        also have "\<dots> \<longleftrightarrow> 2 ^ 53 \<le> round_half_even z" by (simp only: of_int_le_iff)
        finally show ?thesis .
      qed
      have tz: "pow2 1024 - pow2 970 \<le> x \<longleftrightarrow> of_int (2 ^ 53) - 1 / 2 \<le> z"
        unfolding thr xz E using pow2_pos[of 971] by simp
      have "2 ^ 53 \<le> round_half_even z \<longleftrightarrow> of_int (2 ^ 53) - 1 / 2 \<le> z"
      proof
        assume "2 ^ 53 \<le> round_half_even z"
        then show "of_int (2 ^ 53) - 1 / 2 \<le> z"
          using rhe_below_half[of z "2 ^ 53"] by (meson linorder_not_less)
      next
        assume "of_int (2 ^ 53) - 1 / 2 \<le> z"
        then show "2 ^ 53 \<le> round_half_even z"
          by (intro rhe_above_half_even) simp_all
      qed
      then show ?thesis unfolding none ov tz .
    next
      case False
      with L have L4: "1024 \<le> L" by simp
      then have E: "E = L - 52" unfolding E_def by simp
      have "pow2 L = pow2 (52 + E)" unfolding E by simp
      also have "\<dots> = pow2 52 * pow2 E" by (simp only: pow2_add)
      finally have "pow2 52 * pow2 E \<le> z * pow2 E" using b(1) xz by simp
      then have "pow2 52 \<le> z" using pow2_pos[of E] by simp
      then have "2 ^ 52 \<le> round_half_even z" unfolding p52 by (rule rhe_ge_int)
      then have "(of_int (2 ^ 52) :: rat) \<le> of_int (round_half_even z)"
        by (simp only: of_int_le_iff)
      then have "pow2 52 * pow2 E \<le> y"
        unfolding y_def p52 using pow2_pos[of E] by (simp add: mult_right_mono)
      moreover have "pow2 52 * pow2 E = pow2 L" unfolding E by (simp add: pow2_add[symmetric])
      moreover have "pow2 1024 \<le> pow2 L" using L4 by simp
      ultimately have ov: "pow2 1024 \<le> y" by linarith
      have "pow2 1024 - pow2 970 \<le> pow2 1024" using pow2_pos[of 970] by linarith
      also have "\<dots> \<le> pow2 L" using L4 by simp
      also have "\<dots> \<le> x" by (rule b)
      finally show ?thesis unfolding none using ov by simp
    qed
  qed
qed

lemma round_double_exact:
  assumes "\<bar>m\<bar> < 2 ^ 53" "- 1074 \<le> e" "e \<le> 971"
  shows "round_double (of_int m * pow2 e) = Fin (of_int m * pow2 e)"
proof -
  have bound: "of_int k * pow2 e < pow2 1024" if "0 < k" "k < 2 ^ 53" for k :: int
  proof -
    have "(of_int k :: rat) < of_int (2 ^ 53)" using that(2) by (simp only: of_int_less_iff)
    then have "(of_int k :: rat) < pow2 53" by (simp add: pow2_def)
    then have "of_int k * pow2 e < pow2 53 * pow2 e" by simp
    also have "\<dots> = pow2 (53 + e)" by (simp only: pow2_add)
    also have "\<dots> \<le> pow2 1024" using assms(3) by simp
    finally show ?thesis .
  qed
  consider "m = 0" | "0 < m" | "m < 0" by linarith
  then show ?thesis
  proof cases
    case 1
    then show ?thesis by (simp add: round_double_def)
  next
    case 2
    then have m: "m < 2 ^ 53" using assms(1) by simp
    have pos: "0 < of_int m * pow2 e" using 2 by simp
    have "round_pos (of_int m * pow2 e) = Some (of_int m * pow2 e)"
      using 2 m assms(2) bound[OF 2 m] by (rule round_pos_exact)
    then show ?thesis using pos by (simp add: round_double_def)
  next
    case 3
    then have m: "0 < - m" "- m < 2 ^ 53" using assms(1) by simp_all
    have neg: "of_int m * pow2 e < 0" using 3 by (simp add: mult_neg_pos)
    have "round_pos (of_int (- m) * pow2 e) = Some (of_int (- m) * pow2 e)"
      using m assms(2) bound[OF m] by (rule round_pos_exact)
    then have "round_pos (- (of_int m * pow2 e)) = Some (- (of_int m * pow2 e))" by simp
    then show ?thesis using neg by (simp add: round_double_def)
  qed
qed

lemma round_double_int: "\<bar>n\<bar> < 2 ^ 53 \<Longrightarrow> round_double (of_int n) = Fin (of_int n)"
  using round_double_exact[of n 0] by (simp add: pow2_def)

lemma round_double_finite_iff:
  "(\<exists>y. round_double x = Fin y) \<longleftrightarrow> \<not> exceeds_float x"
proof -
  consider "x = 0" | "0 < x" | "x < 0" by linarith
  then show ?thesis
  proof cases
    case 1
    have "pow2 970 < pow2 1024" by simp
    then show ?thesis using 1 by (simp add: round_double_def exceeds_float_def)
  next
    case 2
    then show ?thesis
      using round_pos_overflow_iff[OF 2]
      by (auto simp: round_double_def exceeds_float_def split: option.splits)
  next
    case 3
    then have "0 < - x" by simp
    from round_pos_overflow_iff[OF this] 3 show ?thesis
      by (auto simp: round_double_def exceeds_float_def split: option.splits)
  qed
qed

lemma int_to_float_cases:
  "int_to_float n =
     (if exceeds_float (of_int n) then Inl OverflowError else Inr (round_double (of_int n)))"
  using round_double_finite_iff[of "of_int n"]
  by (auto simp: int_to_float_def split: pyfloat.splits)

lemma int_half_cases:
  "int_half n =
     (if exceeds_float (of_int n / 2) then Inl OverflowError
      else Inr (round_double (of_int n / 2)))"
  using round_double_finite_iff[of "of_int n / 2"]
  by (auto simp: int_half_def split: pyfloat.splits)

lemma not_exceeds_small: "\<bar>x\<bar> \<le> pow2 1023 \<Longrightarrow> \<not> exceeds_float x"
proof -
  assume a: "\<bar>x\<bar> \<le> pow2 1023"
  have "pow2 1024 = pow2 (1023 + 1)" by simp
  also have "\<dots> = pow2 1023 * pow2 1" by (simp only: pow2_add)
  finally have "pow2 1024 = 2 * pow2 1023" by (simp add: pow2_def)
  moreover have "pow2 970 < pow2 1023" by simp
  ultimately show ?thesis using a unfolding exceeds_float_def by linarith
qed

lemma int_to_float_exact: "\<bar>n\<bar> < 2 ^ 53 \<Longrightarrow> int_to_float n = Inr (Fin (of_int n))"
  by (simp add: int_to_float_def round_double_int)

subsection \<open>Level Selector\<close>

lemma select_version_sorted:
  "sorted_wrt (<) (map fst lv) \<Longrightarrow>
   select_version L v lv =
     (if {k \<in> fst ` set lv. k \<le> L} = {} then v else Max {k \<in> fst ` set lv. k \<le> L})"
proof (induction lv arbitrary: v)
  case Nil
  then show ?case by simp
next
  case (Cons kx lv)
  obtain k x where kx: "kx = (k, x)" by (cases kx)
  from Cons.prems kx have gt: "\<forall>j \<in> fst ` set lv. k < j" and srt: "sorted_wrt (<) (map fst lv)"
    by auto
  define R where "R = {j \<in> fst ` set lv. j \<le> L}"
  define R' where "R' = {j \<in> fst ` set (kx # lv). j \<le> L}"
  have ih: "select_version L k lv = (if R = {} then k else Max R)"
    unfolding R_def by (rule Cons.IH[OF srt])
  have fin: "finite R" unfolding R_def by simp
  have goal: "select_version L v (kx # lv) = (if R' = {} then v else Max R')"
  proof (cases "L < k")
    case True
    with gt have "R' = {}"
      unfolding R'_def using kx by fastforce
    with True kx show ?thesis by simp
  next
    case False
    have split: "R' = insert k R"
      unfolding R'_def R_def using False kx by auto
    have sel: "select_version L v (kx # lv) = select_version L k lv"
      using False kx by simp
    show ?thesis
    proof (cases "R = {}")
      case True
      then show ?thesis by (simp add: sel ih split)
    next
      case False
      have "\<forall>j \<in> R. k < j" using gt unfolding R_def by auto
      then have "k < Max R" using False fin by (meson Max_in)
      then have "Max (insert k R) = Max R"
        using False fin by (simp add: max_def)
      then show ?thesis using False by (simp add: sel ih split)
    qed
  qed
  then show ?case unfolding R'_def .
qed

text \<open>
  C5. When the tiers of a bomb are listed by strictly ascending level and every level is
  positive, the selector returns the greatest level that is at most the configured
  level, and 0 when there is none; the scan then adds a known bomb to the ranked list with
  that level, and leaves it out when there is none. For the tiers 1, 3 and 6, the
  configured level 4 selects tier 3 and the configured level 0 selects none.
\<close>

theorem level_selector:
  assumes "sorted_wrt (<) (map fst (levels b))"
    and "\<forall>k \<in> set (map fst (levels b)). 0 < k"
  shows "(let eligible = {k \<in> fst ` set (levels b). k \<le> L}
          in select_version L 0 (levels b) = (if eligible = {} then 0 else Max eligible)
             \<and> (name \<in> set formulae \<longrightarrow>
                scan L formulae [] [(name, b)] (out, variants) =
                  ((out, if eligible = {} then variants
                         else variants @ [(name, b, Max eligible)]), None)))"
proof -
  define E where "E = {k \<in> fst ` set (levels b). k \<le> L}"
  have sel: "select_version L 0 (levels b) = (if E = {} then 0 else Max E)"
    unfolding E_def by (rule select_version_sorted[OF assms(1)])
  have pos: "Max E \<noteq> 0" if ne: "E \<noteq> {}"
  proof -
    have "finite E" unfolding E_def by simp
    then have "Max E \<in> E" using ne by (rule Max_in)
    then show "Max E \<noteq> 0" using assms(2) unfolding E_def by auto
  qed
  have "select_version L 0 (levels b) = (if E = {} then 0 else Max E)
      \<and> (name \<in> set formulae \<longrightarrow>
                scan L formulae [] [(name, b)] (out, variants) =
                  ((out, if E = {} then variants
                         else variants @ [(name, b, Max E)]), None))"
    using sel pos by (cases "E = {}") (simp_all add: Let_def)
  then show ?thesis unfolding Let_def E_def .
qed

theorem level_selector_witness:
  "map fst (levels bomb_136) = [1, 3, 6]
   \<and> select_version 4 0 (levels bomb_136) = 3
   \<and> select_version 0 0 (levels bomb_136) = 0
   \<and> fst (scan 4 [''x''] [] [(''x'', bomb_136)] ([], [])) = ([], [(''x'', bomb_136, 3)])
   \<and> fst (scan 0 [''x''] [] [(''x'', bomb_136)] ([], [])) = ([], [])"
proof -
  have h1: "sorted_wrt (<) (map fst (levels bomb_136))"
    by (simp add: bomb_136_def tiers_136_def)
  have h2: "\<forall>k \<in> set (map fst (levels bomb_136)). 0 < k"
    by (simp add: bomb_136_def tiers_136_def)
  have e4: "{k \<in> fst ` set (levels bomb_136). k \<le> 4} = {1, 3}"
    by (auto simp add: bomb_136_def tiers_136_def)
  have e0: "{k \<in> fst ` set (levels bomb_136). k \<le> 0} = {}"
    by (auto simp add: bomb_136_def tiers_136_def)
  have h0: "map fst (levels bomb_136) = [1, 3, 6]"
    by (simp add: bomb_136_def tiers_136_def)
  show ?thesis
    using h0 level_selector[OF h1 h2, of 4 "''x''" "[''x'']" "[]" "[]"]
      level_selector[OF h1 h2, of 0 "''x''" "[''x'']" "[]" "[]"]
    unfolding Let_def e4 e0 by simp
qed

subsection \<open>Search Matcher\<close>

text \<open>\<open>str_in\<close> is the substring test.\<close>

lemma starts_with_iff: "starts_with xs ys \<longleftrightarrow> (\<exists>ss. ys = xs @ ss)"
  by (induction xs ys rule: starts_with.induct) auto

lemma str_in_iff: "str_in xs ys \<longleftrightarrow> (\<exists>ps ss. ys = ps @ xs @ ss)"
proof (induction ys)
  case Nil
  then show ?case by auto
next
  case (Cons y ys)
  show ?case
  proof
    assume "str_in xs (y # ys)"
    then consider "starts_with xs (y # ys)" | "str_in xs ys" by auto
    then show "\<exists>ps ss. y # ys = ps @ xs @ ss"
    proof cases
      case 1
      then obtain ss where "y # ys = xs @ ss" by (auto simp: starts_with_iff)
      then have "y # ys = [] @ xs @ ss" by simp
      then show ?thesis by blast
    next
      case 2
      then obtain ps ss where "ys = ps @ xs @ ss" using Cons.IH by blast
      then have "y # ys = (y # ps) @ xs @ ss" by simp
      then show ?thesis by blast
    qed
  next
    assume "\<exists>ps ss. y # ys = ps @ xs @ ss"
    then obtain ps ss where eq: "y # ys = ps @ xs @ ss" by blast
    show "str_in xs (y # ys)"
    proof (cases ps)
      case Nil
      with eq have "starts_with xs (y # ys)" by (auto simp: starts_with_iff)
      then show ?thesis by simp
    next
      case (Cons p ps')
      with eq have "ys = ps' @ xs @ ss" by simp
      then have "str_in xs ys" using Cons.IH by blast
      then show ?thesis by simp
    qed
  qed
qed

lemma match_loop_step:
  "match_loop b True (item # rest) =
     (if item = [] then Inl IndexError
      else if token_passes b item then match_loop b True rest else Inr False)"
  by (cases item) (auto simp: token_passes_def Let_def)

lemma match_Nil: "match b [] = Inr True"
  by (simp add: match_def)

lemma match_Cons:
  "match b (item # rest) =
     (if item = [] then Inl IndexError
      else if token_passes b item then match b rest else Inr False)"
  unfolding match_def by (rule match_loop_step)

text \<open>
  C7. On the single token \<open>-fire\<close> the matcher returns false for every bomb whose type
  contains \<open>fire\<close>, and true for every bomb none of whose matchable fields (type,
  on_hit, on_crit, additional, the rendered save if there is one) contains \<open>fire\<close>.
\<close>

theorem match_negated_fire:
  "(str_in ''fire'' (bomb_type b) \<longrightarrow> match b [''-fire''] = Inr False)
   \<and> (\<not> str_in ''fire'' (bomb_type b) \<and> \<not> str_in ''fire'' (on_hit b)
      \<and> \<not> str_in ''fire'' (on_crit b) \<and> \<not> str_in ''fire'' (additional b)
      \<and> (case save b of None \<Rightarrow> True | Some s \<Rightarrow> \<not> str_in ''fire'' (save_str s))
      \<longrightarrow> match b [''-fire''] = Inr True)"
  by (auto simp: match_def check_item_def Let_def split: option.splits)

theorem match_negated_fire_witness:
  "str_in ''fire'' (bomb_type bomb_136) \<and> match bomb_136 [''-fire''] = Inr False
   \<and> \<not> str_in ''fire'' (bomb_type acid_flask) \<and> match acid_flask [''-fire''] = Inr True"
  using match_negated_fire[of bomb_136] match_negated_fire[of acid_flask]
  by (simp add: bomb_136_def acid_flask_def)

text \<open>
  C10, as stated, fails: the loop returns at the first token that does not pass, so an
  empty token behind such a token is never inspected.
\<close>

theorem match_empty_token_counterexample:
  "[] \<in> set [''zzz'', []] \<and> match bomb_136 [''zzz'', []] = Inr False"
  by (simp add: match_def check_item_def bomb_136_def)

lemma match_error_is_IndexError: "match b search = Inl e \<Longrightarrow> e = IndexError"
  by (induction search) (auto simp: match_Nil match_Cons split: if_splits)

lemma match_fails_iff_aux:
  "match b search = Inl IndexError \<longleftrightarrow>
     (\<exists>pre post. search = pre @ [] # post \<and> [] \<notin> set pre \<and> match b pre = Inr True)"
proof (induction search)
  case Nil
  then show ?case by (simp add: match_Nil)
next
  case (Cons item rest)
  show ?case
  proof (cases "item = []")
    case True
    have "item # rest = [] @ [] # rest \<and> [] \<notin> set [] \<and> match b [] = Inr True"
      using True by (simp add: match_Nil)
    then have "\<exists>pre post. item # rest = pre @ [] # post \<and> [] \<notin> set pre \<and> match b pre = Inr True"
      by blast
    then show ?thesis using True by (simp add: match_Cons)
  next
    case False
    have rhs: "(\<exists>pre post. item # rest = pre @ [] # post \<and> [] \<notin> set pre \<and> match b pre = Inr True)
        \<longleftrightarrow> (\<exists>pre' post. rest = pre' @ [] # post \<and> [] \<notin> set pre'
              \<and> match b (item # pre') = Inr True)"
    proof
      assume "\<exists>pre post. item # rest = pre @ [] # post \<and> [] \<notin> set pre \<and> match b pre = Inr True"
      then obtain pre post where d: "item # rest = pre @ [] # post" "[] \<notin> set pre"
        "match b pre = Inr True" by blast
      from d(1) False obtain pre' where p: "pre = item # pre'" "rest = pre' @ [] # post"
        by (cases pre) auto
      with d show "\<exists>pre' post. rest = pre' @ [] # post \<and> [] \<notin> set pre'
              \<and> match b (item # pre') = Inr True" by auto
    next
      assume "\<exists>pre' post. rest = pre' @ [] # post \<and> [] \<notin> set pre'
              \<and> match b (item # pre') = Inr True"
      then obtain pre' post where d: "rest = pre' @ [] # post" "[] \<notin> set pre'"
        "match b (item # pre') = Inr True" by blast
      then have "item # rest = (item # pre') @ [] # post \<and> [] \<notin> set (item # pre')
          \<and> match b (item # pre') = Inr True" using False by auto
      then show "\<exists>pre post. item # rest = pre @ [] # post \<and> [] \<notin> set pre \<and> match b pre = Inr True"
        by blast
    qed
    show ?thesis
    proof (cases "token_passes b item")
      case True
      then show ?thesis unfolding rhs using False Cons.IH by (simp add: match_Cons)
    next
      case nopass: False
      then show ?thesis unfolding rhs using False by (simp add: match_Cons)
    qed
  qed
qed

lemma match_total: "[] \<notin> set search \<Longrightarrow> \<exists>r. match b search = Inr r"
  by (induction search) (auto simp: match_Nil match_Cons)

text \<open>
  C10, amended. The matcher raises IndexError exactly when the token list has an empty
  token and every token before the first empty one passes; it raises nothing else; and
  when no token is empty it returns a boolean.
\<close>

theorem match_fails_iff:
  "(match b search = Inl IndexError \<longleftrightarrow>
      (\<exists>pre post. search = pre @ [] # post \<and> [] \<notin> set pre \<and> match b pre = Inr True))
   \<and> (\<forall>e. match b search = Inl e \<longrightarrow> e = IndexError)
   \<and> ([] \<notin> set search \<longrightarrow> (\<exists>r. match b search = Inr r))"
  using match_fails_iff_aux match_error_is_IndexError match_total by blast

theorem match_fails_iff_witness:
  "match bomb_136 [''fire'', []] = Inl IndexError
   \<and> [] \<notin> set [''fire''] \<and> match bomb_136 [''fire''] = Inr True"
  using match_fails_iff[of bomb_136 "[''fire'', []]"] match_fails_iff[of bomb_136 "[''fire'']"]
  by (simp add: match_def check_item_def bomb_136_def)

subsection \<open>Damage Estimator\<close>

lemma round_pos_ge_one:
  assumes "1 \<le> x" "round_pos x = Some y"
  shows "1 \<le> y"
proof -
  define L where "L = floor_log2 x"
  define E where "E = max (L - 52) (- 1074)"
  have xpos: "0 < x" using assms(1) by simp
  have b: "pow2 L \<le> x" "x < pow2 (L + 1)"
    unfolding L_def using floor_log2_bounds[OF xpos] by simp_all
  have "pow2 0 \<le> x" using assms(1) by (simp add: pow2_def)
  with b(2) have "pow2 0 < pow2 (L + 1)" by linarith
  then have L0: "0 \<le> L" by simp
  then have E: "E = L - 52" unfolding E_def by simp
  have p52: "pow2 52 = of_int (2 ^ 52)" by (simp add: pow2_def)
  have "pow2 L = pow2 (52 + E)" unfolding E by simp
  also have "\<dots> = pow2 52 * pow2 E" by (simp only: pow2_add)
  finally have pL: "pow2 L = pow2 52 * pow2 E" .
  have "pow2 52 * pow2 E \<le> x" using b(1) pL by simp
  then have "pow2 52 \<le> x / pow2 E" by (simp add: pos_le_divide_eq)
  then have "2 ^ 52 \<le> round_half_even (x / pow2 E)" unfolding p52 by (rule rhe_ge_int)
  then have "(of_int (2 ^ 52) :: rat) \<le> of_int (round_half_even (x / pow2 E))"
    by (simp only: of_int_le_iff)
  then have "pow2 52 * pow2 E \<le> of_int (round_half_even (x / pow2 E)) * pow2 E"
    unfolding p52 by (simp add: mult_right_mono)
  then have ge: "pow2 L \<le> of_int (round_half_even (x / pow2 E)) * pow2 E"
    unfolding pL .
  have "y = of_int (round_half_even (x / pow2 E)) * pow2 E"
    using assms(2) unfolding round_pos_unfold E_def L_def by (simp split: if_splits)
  with ge have "pow2 L \<le> y" by simp
  moreover have "pow2 0 \<le> pow2 L" using L0 by simp
  ultimately show ?thesis by (simp add: pow2_def)
qed

lemma round_double_away_from_zero:
  assumes "1 \<le> \<bar>x\<bar>" "round_double x = Fin y"
  shows "1 \<le> \<bar>y\<bar>"
proof (cases "0 < x")
  case True
  with assms(2) obtain y' where "round_pos x = Some y'" "y = y'"
    by (auto simp: round_double_def split: option.splits)
  then show ?thesis using round_pos_ge_one[of x y'] assms(1) True by simp
next
  case False
  then have neg: "x < 0" "1 \<le> - x" using assms(1) by auto
  with assms(2) obtain y' where "round_pos (- x) = Some y'" "y = - y'"
    by (auto simp: round_double_def split: option.splits)
  then show ?thesis using round_pos_ge_one[of "- x" y'] neg by simp
qed

lemma c324_ge_one: "1 \<le> c324"
  by (simp add: c324_def)

lemma c324_exact: "round_double c324 = Fin c324"
proof -
  have "c324 = of_int 1823957849085051 * pow2 (- 49)"
    by (simp add: c324_def pow2_def)
  then show ?thesis
    using round_double_exact[of 1823957849085051 "- 49"] by simp
qed

lemma times_c324_nonzero:
  assumes "n \<noteq> 0"
  shows "num_mul_const (PyInt n) c324 \<noteq> Inr (Fin 0)"
proof
  assume z: "num_mul_const (PyInt n) c324 = Inr (Fin 0)"
  then obtain f where f: "int_to_float n = Inr f" "float_mul f c324 = Fin 0"
    by (cases "int_to_float n") auto
  from f(1) obtain a where a: "f = Fin a" "round_double (of_int n) = Fin a"
    by (cases "round_double (of_int n)") (auto simp: int_to_float_def)
  have "1 \<le> \<bar>n\<bar>" using assms by simp
  then have "(of_int 1 :: rat) \<le> of_int \<bar>n\<bar>" by (simp only: of_int_le_iff)
  then have "1 \<le> \<bar>(of_int n :: rat)\<bar>" by simp
  from this a(2) have a1: "1 \<le> \<bar>a\<bar>" by (rule round_double_away_from_zero)
  have "1 * 1 \<le> \<bar>a\<bar> * \<bar>c324\<bar>"
    using a1 c324_ge_one by (intro mult_mono) simp_all
  then have "1 \<le> \<bar>a * c324\<bar>" by (simp add: abs_mult)
  moreover have "round_double (a * c324) = Fin 0" using f(2) a(1) by simp
  ultimately have "1 \<le> \<bar>0::rat\<bar>" by (rule round_double_away_from_zero)
  then show False by simp
qed

text \<open>
  C1, as stated, fails: with \<open>persistent = 0\<close> the magnitude is \<open>0 + splash\<close>, so a
  variant with splash 1 scores 3.24.
\<close>

theorem avg_dmg_zero_persistent_counterexample:
  "persistent splash_variant = IntV 0 \<and> avg_dmg splash_variant = Inr (Fin c324)
   \<and> c324 \<noteq> 0"
proof -
  have "num_mul_const (PyInt 1) c324 = Inr (Fin c324)"
    by (simp add: int_to_float_exact c324_exact)
  then show ?thesis
    by (simp add: avg_dmg_def damage_total_def persist_of_def splash_variant_def c324_def)
qed

text \<open>
  C1, amended. For a variant whose persistent field is the integer 0, the score is
  \<open>splash * 3.24\<close> once the damage field has been read without error; for an integer
  damage field it is \<open>splash * 3.24\<close> whatever the damage, which is never added, and it
  is 0 exactly when the splash is 0.
\<close>

theorem avg_dmg_persistent_zero:
  assumes "persistent v = IntV 0"
  shows "avg_dmg v = ebind (damage_total v) (\<lambda>t. num_mul_const (PyInt (splash v)) c324)
    \<and> (\<forall>n. damage v = IntV n \<longrightarrow>
          avg_dmg v = num_mul_const (PyInt (splash v)) c324
          \<and> (avg_dmg v = Inr (Fin 0) \<longleftrightarrow> splash v = 0))"
proof -
  have p: "persist_of v = Inr (PyInt (splash v))"
    using assms by (simp add: persist_of_def)
  have first: "avg_dmg v = ebind (damage_total v) (\<lambda>t. num_mul_const (PyInt (splash v)) c324)"
    unfolding avg_dmg_def p by simp
  have z: "num_mul_const (PyInt 0) c324 = Inr (Fin 0)"
    by (simp add: int_to_float_exact round_double_def)
  have second: "avg_dmg v = num_mul_const (PyInt (splash v)) c324
      \<and> (avg_dmg v = Inr (Fin 0) \<longleftrightarrow> splash v = 0)" if "damage v = IntV n" for n
  proof -
    have eq: "avg_dmg v = num_mul_const (PyInt (splash v)) c324"
      unfolding first using that by (simp add: damage_total_def)
    show ?thesis
      unfolding eq using z times_c324_nonzero[of "splash v"] by auto
  qed
  show ?thesis using first second by blast
qed

theorem avg_dmg_persistent_zero_witness:
  "persistent splash_variant = IntV 0 \<and> damage splash_variant = IntV 0
   \<and> avg_dmg splash_variant = num_mul_const (PyInt 1) c324
   \<and> avg_dmg splash_variant \<noteq> Inr (Fin 0)"
proof -
  have h: "persistent splash_variant = IntV 0" by (simp add: splash_variant_def)
  have d: "damage splash_variant = IntV 0" by (simp add: splash_variant_def)
  have s: "splash splash_variant = 1" by (simp add: splash_variant_def)
  from avg_dmg_persistent_zero[OF h] d
  have "avg_dmg splash_variant = num_mul_const (PyInt (splash splash_variant)) c324
      \<and> (avg_dmg splash_variant = Inr (Fin 0) \<longleftrightarrow> splash splash_variant = 0)"
    by blast
  moreover have "splash splash_variant \<noteq> 0" by (simp add: s)
  ultimately have a: "avg_dmg splash_variant = num_mul_const (PyInt (splash splash_variant)) c324"
    and b: "avg_dmg splash_variant \<noteq> Inr (Fin 0)"
    by blast+
  from a have a': "avg_dmg splash_variant = num_mul_const (PyInt 1) c324"
    by (simp only: s)
  show ?thesis using h d a' b by blast
qed

lemma py_int_error_kind: "py_int s = Inl e \<Longrightarrow> e = ValueError"
  by (auto simp: py_int_def Let_def split: option.splits if_splits)

lemma dice_avg_cases:
  "dice_avg s =
     (case dice_parts s of None \<Rightarrow> Inl ValueError | Some (c, d) \<Rightarrow> int_half (c * d))"
  unfolding dice_avg_def dice_parts_def
  by (auto split: list.splits sum.splits dest: py_int_error_kind)

lemma dice_avg_error_iff:
  "(\<exists>e. dice_avg s = Inl e) \<longleftrightarrow> malformed (StrV s) \<or> dice_overflows (StrV s)"
  unfolding dice_avg_cases
  by (auto simp: int_half_cases split: option.splits)

lemma dice_avg_error_kind:
  "dice_avg s = Inl e \<Longrightarrow>
     (if malformed (StrV s) then e = ValueError else e = OverflowError)"
  unfolding dice_avg_cases
  by (auto simp: int_half_cases split: option.splits if_splits)

lemma damage_total_error_iff:
  "(\<exists>e. damage_total v = Inl e) \<longleftrightarrow>
     malformed (damage v) \<or> dice_overflows (damage v)
     \<or> (case damage v of IntV n \<Rightarrow> False | StrV s \<Rightarrow> exceeds_float (of_int (splash v)))"
proof (cases "damage v")
  case (IntV n)
  then show ?thesis by (simp add: damage_total_def)
next
  case (StrV s)
  show ?thesis
  proof (cases "dice_avg s")
    case (Inl e)
    then have "malformed (StrV s) \<or> dice_overflows (StrV s)"
      using dice_avg_error_iff[of s] by blast
    then show ?thesis using StrV Inl by (auto simp: damage_total_def)
  next
    case (Inr x)
    then have "\<not> (malformed (StrV s) \<or> dice_overflows (StrV s))"
      using dice_avg_error_iff[of s] by simp
    then show ?thesis using StrV Inr
      by (auto simp: damage_total_def int_to_float_cases)
  qed
qed

lemma persist_of_error_iff:
  "(\<exists>e. persist_of v = Inl e) \<longleftrightarrow> malformed (persistent v) \<or> dice_overflows (persistent v)"
proof (cases "persistent v")
  case (IntV p)
  then show ?thesis by (simp add: persist_of_def)
next
  case (StrV s)
  show ?thesis
  proof (cases "dice_avg s")
    case (Inl e)
    then have "malformed (StrV s) \<or> dice_overflows (StrV s)"
      using dice_avg_error_iff[of s] by blast
    then show ?thesis using StrV Inl by (auto simp: persist_of_def)
  next
    case (Inr x)
    then have "\<not> (malformed (StrV s) \<or> dice_overflows (StrV s))"
      using dice_avg_error_iff[of s] by simp
    then show ?thesis using StrV Inr by (auto simp: persist_of_def)
  qed
qed

lemma persist_of_value:
  "persist_of v = Inr x \<Longrightarrow>
     (case persistent v of IntV p \<Rightarrow> x = PyInt (p + splash v) | StrV s \<Rightarrow> \<exists>f. x = PyFloat f)"
  by (cases "persistent v") (auto simp: persist_of_def elim!: ebind.elims)

lemma avg_dmg_error_iff:
  "(\<exists>e. avg_dmg v = Inl e) \<longleftrightarrow>
     malformed (damage v) \<or> malformed (persistent v) \<or> overflows v"
proof (cases "damage_total v")
  case (Inl e)
  then have "\<exists>e. damage_total v = Inl e" by blast
  then have "malformed (damage v) \<or> dice_overflows (damage v)
     \<or> (case damage v of IntV n \<Rightarrow> False | StrV s \<Rightarrow> exceeds_float (of_int (splash v)))"
    by (simp only: damage_total_error_iff)
  then have "malformed (damage v) \<or> overflows v" by (auto simp: overflows_def)
  then show ?thesis using Inl by (auto simp: avg_dmg_def)
next
  case dt: (Inr t)
  then have "\<not> (\<exists>e. damage_total v = Inl e)" by simp
  then have "\<not> (malformed (damage v) \<or> dice_overflows (damage v)
     \<or> (case damage v of IntV n \<Rightarrow> False | StrV s \<Rightarrow> exceeds_float (of_int (splash v))))"
    using damage_total_error_iff[of v] by blast
  then have nd: "\<not> malformed (damage v)" "\<not> dice_overflows (damage v)"
    "\<not> (case damage v of IntV n \<Rightarrow> False | StrV s \<Rightarrow> exceeds_float (of_int (splash v)))"
    by blast+
  show ?thesis
  proof (cases "persist_of v")
    case (Inl e)
    then have "\<exists>e. persist_of v = Inl e" by blast
    then have "malformed (persistent v) \<or> dice_overflows (persistent v)"
      by (simp only: persist_of_error_iff)
    then have "malformed (persistent v) \<or> overflows v" by (auto simp: overflows_def)
    then show ?thesis using dt Inl by (auto simp: avg_dmg_def)
  next
    case (Inr x)
    then have "\<not> (\<exists>e. persist_of v = Inl e)" by simp
    then have "\<not> (malformed (persistent v) \<or> dice_overflows (persistent v))"
      using persist_of_error_iff[of v] by blast
    then have np: "\<not> malformed (persistent v)" "\<not> dice_overflows (persistent v)"
      by blast+
    have avg: "avg_dmg v = num_mul_const x c324"
      using dt Inr by (simp add: avg_dmg_def)
    show ?thesis
    proof (cases "persistent v")
      case (IntV p)
      then have x: "x = PyInt (p + splash v)" using persist_of_value[OF Inr] by simp
      show ?thesis
        unfolding avg x using nd np IntV
        by (auto simp: overflows_def int_to_float_cases)
    next
      case (StrV s)
      then obtain f where x: "x = PyFloat f" using persist_of_value[OF Inr] by auto
      show ?thesis
        unfolding avg x using nd np StrV by (auto simp: overflows_def)
    qed
  qed
qed

lemma int_to_float_error_kind: "int_to_float n = Inl e \<Longrightarrow> e = OverflowError"
  by (simp add: int_to_float_cases split: if_splits)

lemma avg_dmg_error_kind:
  assumes "avg_dmg v = Inl e"
  shows "e = ValueError \<or> e = OverflowError"
proof (cases "damage_total v")
  case (Inl e')
  then have e: "e' = e" using assms by (simp add: avg_dmg_def)
  show ?thesis
  proof (cases "damage v")
    case (IntV n)
    then show ?thesis using Inl by (simp add: damage_total_def)
  next
    case (StrV s)
    show ?thesis
    proof (cases "dice_avg s")
      case l: (Inl e'')
      then have "e'' = e" using Inl StrV e by (simp add: damage_total_def)
      then show ?thesis using dice_avg_error_kind[OF l] by (auto split: if_splits)
    next
      case (Inr x)
      then have "int_to_float (splash v) = Inl e"
        using Inl StrV e by (cases "int_to_float (splash v)") (auto simp: damage_total_def)
      then show ?thesis using int_to_float_error_kind by blast
    qed
  qed
next
  case dt: (Inr t)
  show ?thesis
  proof (cases "persist_of v")
    case (Inl e')
    then have e: "e' = e" using assms dt by (simp add: avg_dmg_def)
    show ?thesis
    proof (cases "persistent v")
      case (IntV p)
      then show ?thesis using Inl by (simp add: persist_of_def)
    next
      case (StrV s)
      then have "dice_avg s = Inl e"
        using Inl e by (cases "dice_avg s") (auto simp: persist_of_def)
      from dice_avg_error_kind[OF this] show ?thesis by (auto split: if_splits)
    qed
  next
    case (Inr x)
    then have avg: "num_mul_const x c324 = Inl e"
      using assms dt by (simp add: avg_dmg_def)
    show ?thesis
    proof (cases x)
      case (PyInt n)
      then have "int_to_float n = Inl e"
        using avg by (cases "int_to_float n") auto
      then show ?thesis using int_to_float_error_kind by blast
    next
      case (PyFloat f)
      then show ?thesis using avg by simp
    qed
  qed
qed

lemma not_exceeds_53: "\<bar>x\<bar> \<le> 2 ^ 53 \<Longrightarrow> \<not> exceeds_float x"
proof -
  assume a: "\<bar>x\<bar> \<le> 2 ^ 53"
  have "pow2 53 \<le> pow2 1023" by simp
  moreover have "pow2 53 = 2 ^ 53" by (simp add: pow2_def)
  ultimately have "\<bar>x\<bar> \<le> pow2 1023" using a by linarith
  then show ?thesis by (rule not_exceeds_small)
qed

lemma py_int_digit:
  "is_digit c \<Longrightarrow> py_int [c] = Inr (digit_val c)"
  by (auto simp: py_int_def strip_def is_space_def is_digit_def parse_unsigned_def
      max_str_digits_def Let_def split: if_splits)

lemma dice_parts_1d6: "dice_parts ''1d6'' = Some (1, 6)"
  by (simp add: dice_parts_def py_int_digit is_digit_def digit_val_def)

lemma exceeds_2_1024: "exceeds_float (of_int (2 ^ 1024))"
proof -
  have eq: "\<bar>of_int (2 ^ 1024) :: rat\<bar> = pow2 1024" by (simp add: pow2_def)
  have "pow2 1024 - pow2 970 \<le> pow2 1024" using pow2_pos[of 970] by linarith
  then show ?thesis unfolding exceeds_float_def eq .
qed

text \<open>
  C8, as stated, fails: a variant whose fields are all well formed raises OverflowError
  when an integer operand is too large to be converted to a float.
\<close>

theorem avg_dmg_overflow_counterexample:
  "\<not> malformed (damage huge_variant) \<and> \<not> malformed (persistent huge_variant)
   \<and> avg_dmg huge_variant = Inl OverflowError"
proof -
  have "int_to_float (2 ^ 1024) = Inl OverflowError"
    using exceeds_2_1024 by (simp only: int_to_float_cases if_True)
  then show ?thesis
    by (simp add: avg_dmg_def damage_total_def persist_of_def huge_variant_def)
qed

text \<open>
  C8, amended. The Damage Estimator fails exactly when a string-valued damage or
  persistent field does not split around the letter d into exactly two parts that
  \<open>int\<close> accepts (white space, an optional sign, digits with single underscores
  between them, at most 4300 digits), or when an integer operand is too large for a
  float (the halved product of a dice field, the splash added to a dice damage,
  \<open>persistent + splash\<close> for an integer persistent). The error is a ValueError or an
  OverflowError, and on every other variant the estimator returns a score.
\<close>

theorem avg_dmg_fails_iff:
  "((\<exists>e. avg_dmg v = Inl e) \<longleftrightarrow>
      malformed (damage v) \<or> malformed (persistent v) \<or> overflows v)
   \<and> (\<forall>e. avg_dmg v = Inl e \<longrightarrow> e = ValueError \<or> e = OverflowError)
   \<and> (\<not> malformed (damage v) \<and> \<not> malformed (persistent v) \<and> \<not> overflows v
        \<longrightarrow> (\<exists>y. avg_dmg v = Inr y))"
proof -
  have a: "(\<exists>e. avg_dmg v = Inl e) \<longleftrightarrow>
      malformed (damage v) \<or> malformed (persistent v) \<or> overflows v"
    by (rule avg_dmg_error_iff)
  have b: "\<forall>e. avg_dmg v = Inl e \<longrightarrow> e = ValueError \<or> e = OverflowError"
    using avg_dmg_error_kind by blast
  have c: "\<exists>y. avg_dmg v = Inr y"
    if "\<not> malformed (damage v) \<and> \<not> malformed (persistent v) \<and> \<not> overflows v"
    using that a by (cases "avg_dmg v") auto
  show ?thesis using a b c by blast
qed

theorem avg_dmg_fails_iff_witness:
  "\<not> malformed (damage acid_variant) \<and> \<not> malformed (persistent acid_variant)
   \<and> \<not> overflows acid_variant \<and> (\<exists>y. avg_dmg acid_variant = Inr y)
   \<and> malformed (damage broken_variant) \<and> (\<exists>e. avg_dmg broken_variant = Inl e)"
proof -
  have ne: "\<not> exceeds_float 3" "\<not> exceeds_float 0"
    by (rule not_exceeds_53, simp)+
  have m: "\<not> malformed (damage acid_variant)" "\<not> malformed (persistent acid_variant)"
    by (simp_all add: acid_variant_def dice_parts_1d6)
  have o: "\<not> overflows acid_variant"
    by (simp add: overflows_def acid_variant_def dice_parts_1d6 ne)
  have b: "malformed (damage broken_variant)"
    by (simp add: broken_variant_def dice_parts_def)
  show ?thesis
    using m o b avg_dmg_fails_iff[of acid_variant] avg_dmg_fails_iff[of broken_variant]
    by blast
qed


subsection \<open>The reference formula of the Damage Estimator\<close>

text \<open>
  \<open>int\<close> reads the decimal notation of an integer back when it has at most
  \<open>max_str_digits\<close> digits, and refuses it otherwise; the dice string of two such
  notations splits into them.
\<close>

lemma of_char_digit_char: "d < 10 \<Longrightarrow> (of_char (digit_char d) :: nat) = 48 + d"
  by (simp add: digit_char_def)

lemma digit_char_props:
  assumes "d < 10"
  shows "is_digit (digit_char d)" "digit_val (digit_char d) = int d"
    "\<not> is_space (digit_char d)" "digit_char d \<noteq> CHR ''d''"
    "digit_char d \<noteq> CHR ''-''" "digit_char d \<noteq> CHR ''+''"
proof -
  note oc = of_char_digit_char[OF assms]
  show "is_digit (digit_char d)" using assms by (simp add: is_digit_def oc)
  show "digit_val (digit_char d) = int d" by (simp add: digit_val_def oc)
  show "\<not> is_space (digit_char d)" using assms by (auto simp: is_space_def oc)
  have ne: "digit_char d \<noteq> c" if "(of_char c :: nat) \<notin> {48..57}" for c
  proof
    assume "digit_char d = c"
    then have "(of_char c :: nat) = 48 + d" using oc by simp
    with that assms show False by simp
  qed
  show "digit_char d \<noteq> CHR ''d''" by (rule ne) simp
  show "digit_char d \<noteq> CHR ''-''" by (rule ne) simp
  show "digit_char d \<noteq> CHR ''+''" by (rule ne) simp
qed

lemma plain_digit_char: "d < 10 \<Longrightarrow> plain_digit (digit_char d)"
  by (simp add: plain_digit_def digit_char_props)

lemma digits_of_plain: "\<forall>c \<in> set (digits_of n). plain_digit c"
proof (induction n rule: digits_of.induct)
  case (1 n)
  show ?case
  proof (cases "n < 10")
    case True
    then show ?thesis by (subst digits_of.simps) (simp add: plain_digit_char)
  next
    case False
    have "n mod 10 < 10" by simp
    then have "plain_digit (digit_char (n mod 10))" by (rule plain_digit_char)
    with False "1.IH" show ?thesis by (subst digits_of.simps) simp
  qed
qed

lemma digits_of_nonempty: "digits_of n \<noteq> []"
  by (subst digits_of.simps) simp

lemma parse_digits_all:
  "\<forall>c \<in> set xs. is_digit c \<Longrightarrow>
   parse_digits acc xs = Some (foldl (\<lambda>a c. 10 * a + digit_val c) acc xs)"
  by (induction acc xs rule: parse_digits.induct) auto

lemma parse_unsigned_all:
  assumes "xs \<noteq> []" "\<forall>c \<in> set xs. is_digit c"
  shows "parse_unsigned xs = Some (foldl (\<lambda>a c. 10 * a + digit_val c) 0 xs)"
proof -
  obtain c cs where xs: "xs = c # cs" using assms(1) by (cases xs) auto
  with assms(2) have "is_digit c" "\<forall>c \<in> set cs. is_digit c" by simp_all
  then show ?thesis unfolding xs by (simp add: parse_unsigned_def parse_digits_all)
qed

lemma digits_of_value: "foldl (\<lambda>a c. 10 * a + digit_val c) 0 (digits_of n) = int n"
proof (induction n rule: digits_of.induct)
  case (1 n)
  show ?case
  proof (cases "n < 10")
    case True
    then show ?thesis by (subst digits_of.simps) (simp add: digit_char_props)
  next
    case False
    have d: "digit_val (digit_char (n mod 10)) = int (n mod 10)"
      by (rule digit_char_props) simp
    have "foldl (\<lambda>a c. 10 * a + digit_val c) 0 (digits_of n)
        = 10 * int (n div 10) + int (n mod 10)"
      using False "1.IH" by (subst digits_of.simps) (simp add: d)
    then show ?thesis by (simp add: zdiv_int zmod_int)
  qed
qed

lemma parse_unsigned_digits_of: "parse_unsigned (digits_of n) = Some (int n)"
proof -
  have "\<forall>c \<in> set (digits_of n). is_digit c"
    using digits_of_plain[of n] by (simp add: plain_digit_def)
  then show ?thesis
    using parse_unsigned_all[OF digits_of_nonempty] by (simp add: digits_of_value)
qed

lemma strip_id:
  assumes "s \<noteq> []" "\<not> is_space (hd s)" "\<not> is_space (last s)"
  shows "strip s = s"
proof -
  have a: "dropWhile is_space s = s" using assms(1,2) by (cases s) auto
  have "rev s \<noteq> []" "\<not> is_space (hd (rev s))"
    using assms(1,3) by (simp_all add: hd_rev)
  then have "dropWhile is_space (rev s) = rev s" by (cases "rev s") auto
  then show ?thesis by (simp add: strip_def a)
qed

lemma digits_of_ends:
  "plain_digit (hd (digits_of n))" "plain_digit (last (digits_of n))"
  using digits_of_plain[of n] digits_of_nonempty[of n] by simp_all

lemma digits_of_length:
  "0 < n \<Longrightarrow> 10 ^ (length (digits_of n) - 1) \<le> n \<and> n < 10 ^ length (digits_of n)"
proof (induction n rule: digits_of.induct)
  case (1 n)
  show ?case
  proof (cases "n < 10")
    case True
    then have "digits_of n = [digit_char n]" by (subst digits_of.simps) simp
    then show ?thesis using True "1.prems" by simp
  next
    case False
    then have pos: "0 < n div 10" by simp
    have d: "digits_of n = digits_of (n div 10) @ [digit_char (n mod 10)]"
      using False by (subst digits_of.simps) simp
    define k where "k = length (digits_of (n div 10))"
    have ih: "10 ^ (k - 1) \<le> n div 10 \<and> n div 10 < 10 ^ k"
      unfolding k_def using "1.IH"[OF False pos] .
    have kpos: "0 < k" unfolding k_def using digits_of_nonempty[of "n div 10"] by simp
    then obtain j where j: "k = Suc j" by (cases k) auto
    from ih j have "10 ^ j \<le> n div 10" "n div 10 < 10 ^ Suc j" by simp_all
    then have "10 * 10 ^ j \<le> n" "n < 10 * 10 ^ Suc j" by linarith+
    moreover have "length (digits_of n) = Suc k" unfolding d k_def by simp
    ultimately show ?thesis by (simp add: j)
  qed
qed

lemma max_str_digits_pos: "0 < max_str_digits"
  by (simp add: max_str_digits_def)

lemma digits_of_short_iff:
  "length (digits_of n) \<le> max_str_digits \<longleftrightarrow> n < 10 ^ max_str_digits"
proof (cases "n = 0")
  case True
  have "digits_of 0 = [digit_char 0]" by (subst digits_of.simps) simp
  then show ?thesis using True max_str_digits_pos by simp
next
  case False
  then have pos: "0 < n" by simp
  note b = digits_of_length[OF pos]
  define k where "k = length (digits_of n)"
  have kpos: "0 < k" unfolding k_def using digits_of_nonempty[of n] by simp
  show ?thesis
  proof
    assume "length (digits_of n) \<le> max_str_digits"
    then have "k \<le> max_str_digits" by (simp add: k_def)
    then have "(10::nat) ^ k \<le> 10 ^ max_str_digits" by (intro power_increasing) simp_all
    with b show "n < 10 ^ max_str_digits" unfolding k_def by linarith
  next
    assume a: "n < 10 ^ max_str_digits"
    show "length (digits_of n) \<le> max_str_digits"
    proof (rule ccontr)
      assume "\<not> length (digits_of n) \<le> max_str_digits"
      then have "max_str_digits \<le> k - 1" by (simp add: k_def)
      then have "(10::nat) ^ max_str_digits \<le> 10 ^ (k - 1)"
        by (intro power_increasing) simp_all
      with b a show False unfolding k_def by linarith
    qed
  qed
qed

lemma filter_digits_of: "filter is_digit (digits_of n) = digits_of n"
  using digits_of_plain[of n] by (simp add: plain_digit_def)

lemma nat_abs_small_iff:
  "nat \<bar>n\<bar> < 10 ^ max_str_digits \<longleftrightarrow> \<bar>n\<bar> < 10 ^ max_str_digits"
proof -
  have "nat \<bar>n\<bar> < 10 ^ max_str_digits
      \<longleftrightarrow> int (nat \<bar>n\<bar>) < int (10 ^ max_str_digits)"
    by (simp only: of_nat_less_iff)
  then show ?thesis by simp
qed

lemma py_int_decimal:
  "py_int (decimal n) = (if \<bar>n\<bar> < 10 ^ max_str_digits then Inr n else Inl ValueError)"
proof (cases "n < 0")
  case False
  define ds where "ds = digits_of (nat n)"
  have ne: "ds \<noteq> []" unfolding ds_def by (rule digits_of_nonempty)
  have h: "plain_digit (hd ds)" and l: "plain_digit (last ds)"
    unfolding ds_def by (rule digits_of_ends)+
  have st: "strip ds = ds"
    using ne h l by (intro strip_id) (simp_all add: plain_digit_def)
  obtain c cs where ds: "ds = c # cs" using ne by (cases ds) auto
  have c: "c \<noteq> CHR ''-''" "c \<noteq> CHR ''+''" using h ds by (simp_all add: plain_digit_def)
  have pu: "parse_unsigned (c # cs) = Some (int (nat n))"
    using parse_unsigned_digits_of[of "nat n"] unfolding ds_def[symmetric] ds .
  have fd: "filter is_digit (c # cs) = c # cs"
    using filter_digits_of[of "nat n"] unfolding ds_def[symmetric] ds .
  have len: "length (c # cs) \<le> max_str_digits \<longleftrightarrow> \<bar>n\<bar> < 10 ^ max_str_digits"
    using digits_of_short_iff[of "nat n"] nat_abs_small_iff[of n] False
    unfolding ds_def[symmetric] ds by simp
  have "py_int ds = (if \<bar>n\<bar> < 10 ^ max_str_digits then Inr n else Inl ValueError)"
    unfolding py_int_def st Let_def unfolding ds fd using c pu False len
    by (auto simp: not_less)
  then show ?thesis using False by (simp add: decimal_def ds_def)
next
  case True
  define ds where "ds = digits_of (nat (- n))"
  have ne: "ds \<noteq> []" unfolding ds_def by (rule digits_of_nonempty)
  have l: "plain_digit (last ds)" unfolding ds_def by (rule digits_of_ends)
  have "\<not> is_space (CHR ''-'')" by (simp add: is_space_def)
  then have st: "strip (CHR ''-'' # ds) = CHR ''-'' # ds"
    using ne l by (intro strip_id) (simp_all add: plain_digit_def)
  have pu: "parse_unsigned ds = Some (int (nat (- n)))"
    unfolding ds_def by (rule parse_unsigned_digits_of)
  have "\<not> is_digit (CHR ''-'')" by (simp add: is_digit_def)
  then have fd: "filter is_digit (CHR ''-'' # ds) = ds"
    using filter_digits_of[of "nat (- n)"] unfolding ds_def[symmetric] by simp
  have an: "\<bar>n\<bar> = - n" using True by simp
  have len: "length ds \<le> max_str_digits \<longleftrightarrow> \<bar>n\<bar> < 10 ^ max_str_digits"
    using digits_of_short_iff[of "nat (- n)"] nat_abs_small_iff[of n]
    unfolding ds_def[symmetric] an by simp
  have "py_int (CHR ''-'' # ds) = (if \<bar>n\<bar> < 10 ^ max_str_digits then Inr n else Inl ValueError)"
    unfolding py_int_def st Let_def fd using pu True len by (auto simp: not_less)
  then show ?thesis using True by (simp add: decimal_def ds_def)
qed

lemma str_int_cases:
  "str_int n = (if \<bar>n\<bar> < 10 ^ max_str_digits then Inr (decimal n) else Inl ValueError)"
  using digits_of_short_iff[of "nat \<bar>n\<bar>"] nat_abs_small_iff[of n]
  by (auto simp: str_int_def not_less)

lemma split_on_none: "c \<notin> set xs \<Longrightarrow> split_on c xs = [xs]"
  by (induction xs) auto

lemma split_on_once:
  "c \<notin> set xs \<Longrightarrow> c \<notin> set ys \<Longrightarrow> split_on c (xs @ c # ys) = [xs, ys]"
  by (induction xs) (auto simp: split_on_none)

lemma decimal_no_d: "CHR ''d'' \<notin> set (decimal n)"
  using digits_of_plain by (auto simp: decimal_def plain_digit_def)

lemma dice_parts_decimal:
  "dice_parts (decimal c @ ''d'' @ decimal d) =
     (if \<bar>c\<bar> < 10 ^ max_str_digits \<and> \<bar>d\<bar> < 10 ^ max_str_digits then Some (c, d) else None)"
proof -
  have "split_on (CHR ''d'') (decimal c @ CHR ''d'' # decimal d) = [decimal c, decimal d]"
    by (rule split_on_once) (rule decimal_no_d)+
  then show ?thesis by (simp add: dice_parts_def py_int_decimal)
qed

lemma round_double_eval:
  assumes "pow2 l \<le> x" "x < pow2 (l + 1)" "- 1022 \<le> l" "l \<le> 1022"
  shows "round_double x = Fin (of_int (round_half_even (x / pow2 (l - 52))) * pow2 (l - 52))"
proof -
  have xpos: "0 < x" using assms(1) pow2_pos[of l] by linarith
  have fl: "floor_log2 x = l" by (rule floor_log2_unique) (use assms in simp_all)
  define E where "E = l - 52"
  have mx: "max (floor_log2 x - 52) (- 1074) = E" unfolding fl E_def using assms(3) by simp
  define y where "y = of_int (round_half_even (x / pow2 E)) * pow2 E"
  have p53: "pow2 53 = of_int (2 ^ 53)" by (simp add: pow2_def)
  have e53: "l + 1 = 53 + E" unfolding E_def by simp
  have "x < pow2 (53 + E)" using assms(2) unfolding e53 .
  then have "x < pow2 53 * pow2 E" by (simp only: pow2_add)
  then have "x / pow2 E < pow2 53" by (simp add: pos_divide_less_eq)
  then have "x / pow2 E \<le> of_int (2 ^ 53)" unfolding p53 by simp
  then have "round_half_even (x / pow2 E) \<le> 2 ^ 53" by (rule rhe_le_int)
  then have "(of_int (round_half_even (x / pow2 E)) :: rat) \<le> of_int (2 ^ 53)"
    by (simp only: of_int_le_iff)
  then have "y \<le> pow2 53 * pow2 E" unfolding y_def p53 by (simp add: mult_right_mono)
  also have "\<dots> = pow2 (53 + E)" by (simp only: pow2_add)
  also have "\<dots> < pow2 1024" unfolding E_def using assms(4) by simp
  finally have "\<not> pow2 1024 \<le> y" by simp
  then have "round_pos x = Some y"
    unfolding round_pos_unfold mx y_def by simp
  then show ?thesis using xpos unfolding y_def E_def by (simp add: round_double_def)
qed

lemma rhe_eval:
  assumes "of_int n - 1 / 2 < z" "z < of_int n + 1 / 2"
  shows "round_half_even z = n"
proof -
  have "z - 1 / 2 \<le> of_int (round_half_even z)" "of_int (round_half_even z) \<le> z + 1 / 2"
    by (rule rhe_lower, rule rhe_upper)
  with assms have "(of_int n :: rat) - 1 < of_int (round_half_even z)"
    "(of_int (round_half_even z) :: rat) < of_int n + 1" by linarith+
  then have "(of_int (n - 1) :: rat) < of_int (round_half_even z)"
    "(of_int (round_half_even z) :: rat) < of_int (n + 1)" by simp_all
  then have "n - 1 < round_half_even z" "round_half_even z < n + 1"
    by (simp_all only: of_int_less_iff)
  then show ?thesis by linarith
qed

lemma pow2_numeral_vals: "pow2 1 = 2" "pow2 2 = 4" "pow2 3 = 8" "pow2 4 = 16"
  by (simp_all add: pow2_def)

lemma c324_nearest: "round_double (81 / 25) = Fin c324"
proof -
  have b: "pow2 1 \<le> (81 / 25 :: rat)" "(81 / 25 :: rat) < pow2 (1 + 1)"
    by (simp_all add: pow2_def)
  have z: "(81 / 25 :: rat) / pow2 (1 - 52) = 182395784908505088 / 25"
    by (simp add: pow2_def)
  have r: "round_half_even (182395784908505088 / 25) = 7295831396340204"
    by (rule rhe_eval) simp_all
  have v: "of_int 7295831396340204 * pow2 (1 - 52) = c324"
    by (simp add: pow2_def c324_def)
  show ?thesis
    using round_double_eval[OF b] unfolding z r v by simp
qed


lemma damage_total_int: "damage v = IntV n \<Longrightarrow> damage_total v = Inr (PyInt (splash v + n))"
  by (simp add: damage_total_def)

lemma times_324_finite:
  "\<not> exceeds_float x \<Longrightarrow> \<exists>y. round_double x = Fin y \<and> times_324 x = round_double (y * c324)"
  using round_double_finite_iff[of x] by (auto simp: times_324_def)

lemma int_times_324:
  assumes "\<not> exceeds_float (of_int n)"
  shows "num_mul_const (PyInt n) c324 = Inr (times_324 (of_int n))"
proof -
  obtain y where y: "round_double (of_int n) = Fin y"
    "times_324 (of_int n) = round_double (y * c324)"
    using times_324_finite[OF assms] by blast
  show ?thesis using assms y by (simp add: int_to_float_cases)
qed

lemma half_times_324:
  assumes "\<not> exceeds_float (of_int n / 2)"
  shows "ebind (int_half n) (\<lambda>x. num_mul_const (PyFloat x) c324)
     = Inr (times_324 (of_int n / 2))"
proof -
  obtain y where y: "round_double (of_int n / 2) = Fin y"
    "times_324 (of_int n / 2) = round_double (y * c324)"
    using times_324_finite[OF assms] by blast
  show ?thesis using assms y by (simp add: int_half_cases)
qed

lemma times_324_exact:
  assumes "\<bar>m\<bar> < 2 ^ 53" "- 1074 \<le> e" "e \<le> 971"
  shows "times_324 (of_int m * pow2 e) = round_double (of_int m * pow2 e * c324)"
  by (simp add: times_324_def round_double_exact[OF assms])

lemma decimal_digits: "decimal 0 = ''0''" "decimal 1 = ''1''" "decimal 6 = ''6''"
  by code_simp+

lemma small_below_cap: "\<bar>0 :: int\<bar> < 10 ^ max_str_digits" "\<bar>1 :: int\<bar> < 10 ^ max_str_digits"
  "\<bar>6 :: int\<bar> < 10 ^ max_str_digits"
proof -
  have "(10 :: int) ^ 1 \<le> 10 ^ max_str_digits"
    by (rule power_increasing) (use max_str_digits_pos in simp_all)
  then show "\<bar>0 :: int\<bar> < 10 ^ max_str_digits" "\<bar>1 :: int\<bar> < 10 ^ max_str_digits"
    "\<bar>6 :: int\<bar> < 10 ^ max_str_digits" by simp_all
qed

lemma long_dice_fails: "avg_dmg long_dice_variant = Inl ValueError"
proof -
  have "dice_parts (decimal (10 ^ max_str_digits) @ ''d'' @ decimal 0) = None"
    unfolding dice_parts_decimal by simp
  then have "dice_avg (decimal (10 ^ max_str_digits) @ ''d'' @ decimal 0) = Inl ValueError"
    unfolding dice_avg_cases by simp
  then show ?thesis
    by (simp add: avg_dmg_def damage_total_def persist_of_def long_dice_variant_def)
qed

lemma times_324_zero: "times_324 0 = Fin 0"
  by (simp add: times_324_def round_double_def)

lemma times_324_one: "times_324 1 = Fin (1823957849085051 / 562949953421312)"
proof -
  have "round_double (of_int 1) = Fin (of_int 1)" by (rule round_double_int) simp
  then have "times_324 1 = round_double c324" by (simp add: times_324_def)
  then show ?thesis unfolding c324_exact by (simp add: c324_def)
qed

lemma times_324_three: "times_324 3 = Fin (5471873547255153 / 562949953421312)"
proof -
  have "round_double (of_int 3) = Fin (of_int 3)" by (rule round_double_int) simp
  then have t: "times_324 3 = round_double (3 * c324)" by (simp add: times_324_def)
  have e: "3 * c324 = of_int 5471873547255153 * pow2 (- 49)"
    by (simp add: c324_def pow2_def)
  have v: "of_int 5471873547255153 * pow2 (- 49) = (5471873547255153 / 562949953421312 :: rat)"
    by (simp add: pow2_def)
  show ?thesis
    unfolding t e using round_double_exact[of 5471873547255153 "- 49"] unfolding v by simp
qed

text \<open>
  C2, as stated, fails: the formulas are claimed for all non-negative integers, but no
  score is returned for the integer persistent \<open>2 ^ 1024\<close> with splash 0 (OverflowError at
  line 63), nor for the dice string of the count \<open>10 ^ 4300\<close> and 0 sides, which
  \<open>int\<close> refuses for its 4301 digits (ValueError at line 60) although
  \<open>c * d / 2 * 3.24\<close> is 0.0 there.
\<close>

theorem reference_formula_counterexample:
  "persistent huge_variant = IntV (2 ^ 1024) \<and> splash huge_variant = 0
   \<and> avg_dmg huge_variant = Inl OverflowError
   \<and> persistent long_dice_variant = StrV (decimal (10 ^ max_str_digits) @ ''d'' @ decimal 0)
   \<and> splash long_dice_variant = 0
   \<and> avg_dmg long_dice_variant = Inl ValueError
   \<and> reference_dice (10 ^ max_str_digits) 0 = Fin 0"
proof -
  have "int_to_float (2 ^ 1024) = Inl OverflowError"
    using exceeds_2_1024 by (simp only: int_to_float_cases if_True)
  then have "avg_dmg huge_variant = Inl OverflowError"
    by (simp add: avg_dmg_def damage_total_def persist_of_def huge_variant_def)
  moreover have "reference_dice (10 ^ max_str_digits) 0 = Fin 0"
    by (simp add: reference_dice_def times_324_zero)
  ultimately show ?thesis
    using long_dice_fails by (simp add: huge_variant_def long_dice_variant_def)
qed

text \<open>
  C2, amended. For an integer persistent \<open>p\<close> and a splash \<open>s\<close> whose sum is within
  the range of the floats (magnitude below \<open>2 ^ 1024 - 2 ^ 970\<close>), the score is
  \<open>(p + s) * 3.24\<close>: the float of \<open>p + s\<close> times the float 3.24, rounded. For the dice
  string of a count \<open>c\<close> and sides \<open>d\<close> of at most 4300 digits each, with
  \<open>c * d / 2\<close> within the range of the floats, the score is \<open>c * d / 2 * 3.24\<close>
  whatever the splash. Both hold for negative numbers too and for every damage field
  that is read without error, an integer one in particular. Below \<open>2 ^ 53\<close> the
  formulas are the exact products with the float 3.24, rounded once, and that float is
  the one nearest to \<open>81 / 25\<close>.
\<close>

theorem avg_dmg_reference:
  "(persistent v = IntV p \<and> (\<exists>t. damage_total v = Inr t)
      \<and> \<not> exceeds_float (of_int (p + splash v))
      \<longrightarrow> avg_dmg v = Inr (reference_flat p (splash v)))
   \<and> (persistent v = StrV (decimal c @ ''d'' @ decimal d)
      \<and> \<bar>c\<bar> < 10 ^ max_str_digits \<and> \<bar>d\<bar> < 10 ^ max_str_digits
      \<and> (\<exists>t. damage_total v = Inr t) \<and> \<not> exceeds_float (of_int (c * d) / 2)
      \<longrightarrow> avg_dmg v = Inr (reference_dice c d))
   \<and> (\<forall>n. damage v = IntV n \<longrightarrow> (\<exists>t. damage_total v = Inr t))
   \<and> (\<bar>p + s\<bar> < 2 ^ 53 \<longrightarrow> reference_flat p s = round_double (of_int (p + s) * c324))
   \<and> (\<bar>c * d\<bar> < 2 ^ 53 \<longrightarrow> reference_dice c d = round_double (of_int (c * d) / 2 * c324))
   \<and> round_double (81 / 25) = Fin c324"
proof -
  have flat: "avg_dmg v = Inr (reference_flat p (splash v))"
    if "persistent v = IntV p" "damage_total v = Inr t"
      "\<not> exceeds_float (of_int (p + splash v))" for t
    using that int_times_324[OF that(3)]
    by (simp add: avg_dmg_def persist_of_def reference_flat_def)
  have dice: "avg_dmg v = Inr (reference_dice c d)"
    if p: "persistent v = StrV (decimal c @ ''d'' @ decimal d)"
      and cd: "\<bar>c\<bar> < 10 ^ max_str_digits" "\<bar>d\<bar> < 10 ^ max_str_digits"
      and dt: "damage_total v = Inr t"
      and ne: "\<not> exceeds_float (of_int (c * d) / 2)" for t
  proof -
    have "dice_avg (decimal c @ ''d'' @ decimal d) = int_half (c * d)"
      unfolding dice_avg_cases dice_parts_decimal using cd by simp
    then have "persist_of v = ebind (int_half (c * d)) (\<lambda>x. Inr (PyFloat x))"
      using p by (simp add: persist_of_def)
    then have "avg_dmg v = ebind (int_half (c * d)) (\<lambda>x. num_mul_const (PyFloat x) c324)"
      using dt by (cases "int_half (c * d)") (simp_all add: avg_dmg_def)
    then show ?thesis
      unfolding half_times_324[OF ne] by (simp add: reference_dice_def)
  qed
  have rf: "reference_flat p s = round_double (of_int (p + s) * c324)"
    if "\<bar>p + s\<bar> < 2 ^ 53"
    using times_324_exact[of "p + s" 0] that by (simp add: reference_flat_def pow2_def)
  have rd: "reference_dice c d = round_double (of_int (c * d) / 2 * c324)"
    if "\<bar>c * d\<bar> < 2 ^ 53"
  proof -
    have eq: "(of_int (c * d) / 2 :: rat) = of_int (c * d) * pow2 (- 1)"
      by (simp add: pow2_def)
    show ?thesis
      unfolding reference_dice_def eq by (rule times_324_exact) (use that in simp_all)
  qed
  show ?thesis using flat dice damage_total_int rf rd c324_nearest by blast
qed

theorem avg_dmg_reference_witness:
  "persistent splash_variant = IntV 0 \<and> splash splash_variant = 1
   \<and> avg_dmg splash_variant = Inr (Fin (1823957849085051 / 562949953421312))
   \<and> reference_flat 0 1 = Fin (1823957849085051 / 562949953421312)
   \<and> persistent acid_variant = StrV ''1d6''
   \<and> avg_dmg acid_variant = Inr (Fin (5471873547255153 / 562949953421312))
   \<and> reference_dice 1 6 = Fin (5471873547255153 / 562949953421312)"
proof -
  have rf: "reference_flat 0 1 = Fin (1823957849085051 / 562949953421312)"
    by (simp add: reference_flat_def times_324_one)
  have rd: "reference_dice 1 6 = Fin (5471873547255153 / 562949953421312)"
    by (simp add: reference_dice_def times_324_three)
  have ne: "\<not> exceeds_float (of_int (0 + splash splash_variant))"
    "\<not> exceeds_float (of_int (1 * 6) / 2)"
    by (rule not_exceeds_53, simp add: splash_variant_def)+
  have ds: "\<exists>t. damage_total splash_variant = Inr t"
    by (simp add: damage_total_def splash_variant_def)
  have "dice_avg ''1d6'' = Inr (Fin 3)"
    unfolding dice_avg_cases dice_parts_1d6
    using round_double_int[of 3] not_exceeds_53[of 3] by (simp add: int_half_cases)
  then have da: "\<exists>t. damage_total acid_variant = Inr t"
    using not_exceeds_53[of 0]
    by (simp add: damage_total_def acid_variant_def int_to_float_cases)
  have pa: "persistent acid_variant = StrV (decimal 1 @ ''d'' @ decimal 6)"
    by (simp add: acid_variant_def decimal_digits)
  have ps: "persistent splash_variant = IntV 0" "splash splash_variant = 1"
    by (simp_all add: splash_variant_def)
  have a: "avg_dmg splash_variant = Inr (reference_flat 0 (splash splash_variant))"
    using avg_dmg_reference[of splash_variant 0 1 6 1] ps(1) ds ne(1) by blast
  have b: "avg_dmg acid_variant = Inr (reference_dice 1 6)"
    using avg_dmg_reference[of acid_variant 0 1 6 1] pa da ne(2) small_below_cap by blast
  show ?thesis
    using a b rf rd ps by (simp add: acid_variant_def)
qed

subsection \<open>The end-to-end example\<close>

text \<open>
  The float \<open>3.0 * 3.24\<close> is \<open>5471873547255153 / 2 ^ 49\<close>; no decimal number of one or two
  digits reads back as it, and 9.72 does, so that its \<open>repr\<close> is \<open>9.72\<close>.
\<close>

lemma round_double_3: 
  assumes "8 \<le> x" "x < 16" "of_int n - 1 / 2 < x * 562949953421312"
    "x * 562949953421312 < of_int n + 1 / 2"
  shows "round_double x = Fin (of_int n / 562949953421312)"
proof -
  have p: "pow2 (3 - 52) = 1 / 562949953421312" by (simp add: pow2_def)
  have b: "pow2 3 \<le> x" "x < pow2 (3 + 1)" using assms(1,2) by (simp_all add: pow2_def)
  have "round_half_even (x / pow2 (3 - 52)) = n"
    unfolding p by (rule rhe_eval) (use assms(3,4) in simp_all)
  then show ?thesis using round_double_eval[OF b] unfolding p by simp
qed

lemma rd_97: "round_double (97 / 10) = Fin (5460614548186726 / 562949953421312)"
  using round_double_3[of "97 / 10" 5460614548186726] by simp

lemma rd_98: "round_double (98 / 10) = Fin (5516909543528858 / 562949953421312)"
  using round_double_3[of "98 / 10" 5516909543528858] by simp

lemma rd_972: "round_double (972 / 100) = Fin (5471873547255153 / 562949953421312)"
  using round_double_3[of "972 / 100" 5471873547255153] by simp

lemma rd_973: "round_double (973 / 100) = Fin (5477503046789366 / 562949953421312)"
  using round_double_3[of "973 / 100" 5477503046789366] by simp



lemma floor_eval: "of_int n \<le> x \<Longrightarrow> x < of_int n + 1 \<Longrightarrow> \<lfloor>x\<rfloor> = n"
  by (simp add: floor_eq_iff)

lemma dec_exp_972: "dec_exp (5471873547255153 / 562949953421312) = 0"
proof -
  have "\<lfloor>5471873547255153 / 562949953421312 :: rat\<rfloor> = 9" by (rule floor_eval) simp_all
  then show ?thesis by (simp add: dec_exp_def digits_of.simps)
qed

lemma candidate_972_1: "candidate (5471873547255153 / 562949953421312) 1 = None"
proof -
  have u: "pow10 (0 - int 1 + 1) = 1" by (simp add: pow10_def)
  have lo: "\<lfloor>5471873547255153 / 562949953421312 / 1 :: rat\<rfloor> = 9" by (rule floor_eval) simp_all
  have a: "round_double (of_int 9 * 1) = Fin 9" using round_double_int[of 9] by simp
  have b: "round_double (of_int (9 + 1) * 1) = Fin 10" using round_double_int[of 10] by simp
  show ?thesis unfolding candidate_def dec_exp_972 u Let_def lo a b by simp
qed

lemma candidate_972_2: "candidate (5471873547255153 / 562949953421312) 2 = None"
proof -
  have u: "pow10 (0 - int 2 + 1) = 1 / 10" by (simp add: pow10_def)
  have lo: "\<lfloor>5471873547255153 / 562949953421312 / (1 / 10) :: rat\<rfloor> = 97"
    by (rule floor_eval) simp_all
  have a: "round_double (of_int 97 * (1 / 10)) = Fin (5460614548186726 / 562949953421312)"
    using rd_97 by simp
  have b: "round_double (of_int (97 + 1) * (1 / 10)) = Fin (5516909543528858 / 562949953421312)"
    using rd_98 by simp
  show ?thesis unfolding candidate_def dec_exp_972 u Let_def lo a b by simp
qed

lemma candidate_972_3: "candidate (5471873547255153 / 562949953421312) 3 = Some 972"
proof -
  have u: "pow10 (0 - int 3 + 1) = 1 / 100" by (simp add: pow10_def)
  have lo: "\<lfloor>5471873547255153 / 562949953421312 / (1 / 100) :: rat\<rfloor> = 972"
    by (rule floor_eval) simp_all
  have a: "round_double (of_int 972 * (1 / 100)) = Fin (5471873547255153 / 562949953421312)"
    using rd_972 by simp
  have b: "round_double (of_int (972 + 1) * (1 / 100)) = Fin (5477503046789366 / 562949953421312)"
    using rd_973 by simp
  show ?thesis unfolding candidate_def dec_exp_972 u Let_def lo a b by simp
qed

lemma shortest_972: "shortest (5471873547255153 / 562949953421312) 1 16 = (972, 3)"
proof -
  have n: "(16 :: nat) = Suc (Suc (Suc 13))" "Suc 1 = 2" "Suc 2 = 3" by simp_all
  show ?thesis
    unfolding n(1) shortest.simps candidate_972_1 option.case n(2) candidate_972_2
      n(3) candidate_972_3 by simp
qed

lemma digits_972: "digits_of 972 = ''972''"
  by code_simp

lemma repr_pos_972: "repr_pos (5471873547255153 / 562949953421312) = ''9.72''"
  unfolding repr_pos_def shortest_972 dec_exp_972
  by (simp add: digits_972 strip_zeros_def)

lemma repr_972: "float_repr (Fin (5471873547255153 / 562949953421312)) = ''9.72''"
  by (simp add: repr_pos_972)


lemma avg_dmg_acid:
  "avg_dmg acid_variant = Inr (Fin (5471873547255153 / 562949953421312))"
proof -
  have ne: "\<not> exceeds_float 3" "\<not> exceeds_float 0"
    by (rule not_exceeds_53, simp)+
  have d: "dice_avg ''1d6'' = int_half 6"
    unfolding dice_avg_cases dice_parts_1d6 by simp
  have i: "int_half 6 = Inr (Fin 3)"
    using round_double_int[of 3] ne(1) by (simp add: int_half_cases)
  have t: "\<exists>t. damage_total acid_variant = Inr t"
    using ne(2) by (simp add: damage_total_def acid_variant_def d i int_to_float_cases)
  have h: "ebind (int_half 6) (\<lambda>x. num_mul_const (PyFloat x) c324) = Inr (times_324 3)"
    using half_times_324[of 6] ne(1) by simp
  have "persist_of acid_variant = ebind (int_half 6) (\<lambda>x. Inr (PyFloat x))"
    by (simp add: persist_of_def acid_variant_def d)
  then have "avg_dmg acid_variant
      = ebind (int_half 6) (\<lambda>x. num_mul_const (PyFloat x) c324)"
    using t i by (auto simp: avg_dmg_def)
  then show ?thesis
    unfolding h times_324_three .
qed

lemma title_acid: "title ''acid flask'' = ''Acid Flask''" "title ''lesser'' = ''Lesser''"
  by code_simp+

lemma lookup_acid: "lookup_level acid_flask 1 = Inr acid_variant"
  by (simp add: lookup_level_def acid_flask_def)

lemma str_int_1: "str_int 1 = Inr ''1''"
  unfolding str_int_cases using small_below_cap(2) by (simp add: decimal_digits)

lemma variant_str_acid:
  "variant_str acid_flask 1
     = Inr ''The bomb deals 1d6 acid damage, 1d6 persistent acid damage.''"
proof -
  have "damages_of acid_flask acid_variant
     = Inr [''1d6 acid damage'', ''1d6 persistent acid damage'']"
    by (simp add: damages_of_def acid_flask_def acid_variant_def)
  then have "description_of acid_flask acid_variant
     = Inr [''The bomb deals 1d6 acid damage, 1d6 persistent acid damage'']"
    by (simp add: description_of_def acid_flask_def acid_variant_def)
  then show ?thesis
    unfolding variant_str_def lookup_acid by (simp add: acid_flask_def)
qed

lemma parse_bomb_acid: "parse_bomb ''acid flask'' acid_flask 1 = Inr acid_block"
proof -
  have lv: "level acid_variant = ''lesser''" by (simp add: acid_variant_def)
  show ?thesis
    by (simp add: parse_bomb_def lookup_acid str_int_1 avg_dmg_acid variant_str_acid
        repr_pos_972 title_acid lv acid_block_def)
qed

lemma scan_acid:
  "scan 1 [''acid flask''] [] [(''acid flask'', acid_flask)] ([], [])
     = (([], [(''acid flask'', acid_flask, 1)]), None)"
  by (simp add: acid_flask_def)

text \<open>
  C3, as stated, fails: with the catalog of the example, \<open>acid flask\<close> known, level 1 and
  no search tokens, the one block that is printed has the header
  \<open>Acid Flask (Lesser) [1] (9.72 dmg)\<close>, not \<open>Acid Flask (Lesser) [1] (10.8 dmg)\<close>: the
  score of the dice string \<open>1d6\<close> is \<open>1 * 6 / 2 * 3.24\<close>.
\<close>

theorem acid_flask_header_counterexample:
  "fst (main 1 [''acid flask''] [(''acid flask'', acid_flask)] [])
     = [''Acid Flask (Lesser) [1] (9.72 dmg)'' @ [newline]
          @ ''The bomb deals 1d6 acid damage, 1d6 persistent acid damage.'' @ [newline]]
   \<and> fst (main 1 [''acid flask''] [(''acid flask'', acid_flask)] [])
     \<noteq> [''Acid Flask (Lesser) [1] (10.8 dmg)'' @ [newline]
          @ ''The bomb deals 1d6 acid damage, 1d6 persistent acid damage.'' @ [newline]]"
proof -
  have "main 1 [''acid flask''] [(''acid flask'', acid_flask)] [] = ([acid_block], None)"
    unfolding main_def scan_acid
    by (simp add: lookup_acid avg_dmg_acid sorted_reverse_def parse_bomb_acid)
  then show ?thesis by (simp add: acid_block_def)
qed

text \<open>
  C3, amended. With the catalog of the example, \<open>acid flask\<close> known, level 1 and no search
  tokens, the program prints exactly one block, whose header line is
  \<open>Acid Flask (Lesser) [1] (9.72 dmg)\<close> and whose body line is
  \<open>The bomb deals 1d6 acid damage, 1d6 persistent acid damage.\<close>, and ends normally.
\<close>

theorem acid_flask_example:
  "main 1 [''acid flask''] [(''acid flask'', acid_flask)] []
     = ([''Acid Flask (Lesser) [1] (9.72 dmg)'' @ [newline]
          @ ''The bomb deals 1d6 acid damage, 1d6 persistent acid damage.'' @ [newline]],
        None)"
  unfolding main_def scan_acid
  by (simp add: lookup_acid avg_dmg_acid sorted_reverse_def parse_bomb_acid acid_block_def)
end
